theory Spec2Isabelle
  imports Main "HOL-Library.Monad_Syntax"
begin

section \<open>The free store and the map objects\<close>

text \<open>
  The container of \<^verbatim>\<open>src/map.hpp\<close> is a red-black tree of heap nodes linked by
  \<^verbatim>\<open>left\<close>, \<^verbatim>\<open>right\<close> and \<^verbatim>\<open>parent\<close> pointers. The embedding keeps the
  pointers: a pointer is \<open>nat option\<close> (\<open>None\<close> is \<^verbatim>\<open>nullptr\<close>), the free store is a
  partial map from addresses to nodes, and every map object lives at an address of its own
  (its \<^verbatim>\<open>this\<close>), so that several maps and their cursors share one store.

  Every operation returns an \<open>option\<close>: \<open>None\<close> stands for "no defined result"
  (a loop that does not end, or a read or write through a null or dangling pointer).
  The two exceptions of the source are values of the type \<open>error\<close>.

  \<^verbatim>\<open>node_count\<close> (a \<^verbatim>\<open>size_t\<close>) is a \<open>nat\<close>: it counts live nodes, each of which
  occupies storage of its own, so it cannot reach the wrap-around of \<^verbatim>\<open>size_t\<close>.
  The ordering predicate \<^verbatim>\<open>comp\<close> is a parameter of the operations that use it, and
  \<^verbatim>\<open>T()\<close> is the parameter \<open>dflt\<close> of index access.
\<close>

datatype error = Invalid_iterator | Index_out_of_bound

type_synonym ptr = "nat option"

record ('k, 'v) node =
  data_first :: 'k
  data_second :: 'v
  color :: bool
  left :: ptr
  right :: ptr
  parent :: ptr

record map_obj =
  root :: ptr
  node_count :: nat

record ('k, 'v) world =
  nodes :: "nat \<Rightarrow> ('k, 'v) node option"
  maps :: "nat \<Rightarrow> map_obj option"
  next_addr :: nat

record iterator =
  owner :: ptr
  cur :: ptr

text \<open>Field reads and writes through a node address; a dangling address gives \<open>None\<close>.\<close>

definition get_left :: "('k, 'v) world \<Rightarrow> nat \<Rightarrow> ptr option" where
  "get_left s a = map_option left (nodes s a)"

definition get_right :: "('k, 'v) world \<Rightarrow> nat \<Rightarrow> ptr option" where
  "get_right s a = map_option right (nodes s a)"

definition get_parent :: "('k, 'v) world \<Rightarrow> nat \<Rightarrow> ptr option" where
  "get_parent s a = map_option parent (nodes s a)"

definition get_color :: "('k, 'v) world \<Rightarrow> nat \<Rightarrow> bool option" where
  "get_color s a = map_option color (nodes s a)"

definition get_key :: "('k, 'v) world \<Rightarrow> nat \<Rightarrow> 'k option" where
  "get_key s a = map_option data_first (nodes s a)"

definition upd_node :: "nat \<Rightarrow> (('k, 'v) node \<Rightarrow> ('k, 'v) node) \<Rightarrow> ('k, 'v) world \<Rightarrow> ('k, 'v) world option" where
  "upd_node a f s = (case nodes s a of None \<Rightarrow> None
     | Some n \<Rightarrow> Some (s\<lparr>nodes := (nodes s)(a \<mapsto> f n)\<rparr>))"

definition set_left :: "nat \<Rightarrow> ptr \<Rightarrow> ('k, 'v) world \<Rightarrow> ('k, 'v) world option" where
  "set_left a v s = upd_node a (\<lambda>n. n\<lparr>left := v\<rparr>) s"

definition set_right :: "nat \<Rightarrow> ptr \<Rightarrow> ('k, 'v) world \<Rightarrow> ('k, 'v) world option" where
  "set_right a v s = upd_node a (\<lambda>n. n\<lparr>right := v\<rparr>) s"

definition set_parent :: "nat \<Rightarrow> ptr \<Rightarrow> ('k, 'v) world \<Rightarrow> ('k, 'v) world option" where
  "set_parent a v s = upd_node a (\<lambda>n. n\<lparr>parent := v\<rparr>) s"

definition set_color :: "nat \<Rightarrow> bool \<Rightarrow> ('k, 'v) world \<Rightarrow> ('k, 'v) world option" where
  "set_color a v s = upd_node a (\<lambda>n. n\<lparr>color := v\<rparr>) s"

definition set_second :: "nat \<Rightarrow> 'v \<Rightarrow> ('k, 'v) world \<Rightarrow> ('k, 'v) world option" where
  "set_second a v s = upd_node a (\<lambda>n. n\<lparr>data_second := v\<rparr>) s"

text \<open>\<^verbatim>\<open>if (p) p->f = v;\<close> for a pointer that may be null.\<close>

definition set_parent_if :: "ptr \<Rightarrow> ptr \<Rightarrow> ('k, 'v) world \<Rightarrow> ('k, 'v) world option" where
  "set_parent_if p v s = (case p of None \<Rightarrow> Some s | Some a \<Rightarrow> set_parent a v s)"

definition set_color_if :: "ptr \<Rightarrow> bool \<Rightarrow> ('k, 'v) world \<Rightarrow> ('k, 'v) world option" where
  "set_color_if p v s = (case p of None \<Rightarrow> Some s | Some a \<Rightarrow> set_color a v s)"

text \<open>\<^verbatim>\<open>p ? p->left : nullptr\<close> and its siblings.\<close>

definition left_of :: "('k, 'v) world \<Rightarrow> ptr \<Rightarrow> ptr option" where
  "left_of s p = (case p of None \<Rightarrow> Some None | Some a \<Rightarrow> get_left s a)"

definition right_of :: "('k, 'v) world \<Rightarrow> ptr \<Rightarrow> ptr option" where
  "right_of s p = (case p of None \<Rightarrow> Some None | Some a \<Rightarrow> get_right s a)"

definition parent_of :: "('k, 'v) world \<Rightarrow> ptr \<Rightarrow> ptr option" where
  "parent_of s p = (case p of None \<Rightarrow> Some None | Some a \<Rightarrow> get_parent s a)"

text \<open>The fields of the map object at \<open>this\<close>.\<close>

definition get_root :: "('k, 'v) world \<Rightarrow> nat \<Rightarrow> ptr option" where
  "get_root s this = map_option root (maps s this)"

definition set_root :: "nat \<Rightarrow> ptr \<Rightarrow> ('k, 'v) world \<Rightarrow> ('k, 'v) world option" where
  "set_root this v s = (case maps s this of None \<Rightarrow> None
     | Some m \<Rightarrow> Some (s\<lparr>maps := (maps s)(this \<mapsto> m\<lparr>root := v\<rparr>)\<rparr>))"

definition set_count :: "nat \<Rightarrow> nat \<Rightarrow> ('k, 'v) world \<Rightarrow> ('k, 'v) world option" where
  "set_count this v s = (case maps s this of None \<Rightarrow> None
     | Some m \<Rightarrow> Some (s\<lparr>maps := (maps s)(this \<mapsto> m\<lparr>node_count := v\<rparr>)\<rparr>))"

definition get_count :: "('k, 'v) world \<Rightarrow> nat \<Rightarrow> nat option" where
  "get_count s this = map_option node_count (maps s this)"

text \<open>
  \<^verbatim>\<open>new Node(d)\<close>: the constructor colours the node red and nulls its three links.
  The allocator hands out the addresses \<open>next_addr\<close>, \<open>next_addr + 1\<close>, ... and never
  reuses one. \<^verbatim>\<open>delete x\<close> frees a live node.
\<close>

definition new_node :: "'k \<Rightarrow> 'v \<Rightarrow> ('k, 'v) world \<Rightarrow> nat \<times> ('k, 'v) world" where
  "new_node k v s = (next_addr s,
     s\<lparr>nodes := (nodes s)(next_addr s \<mapsto>
          \<lparr>data_first = k, data_second = v, color = True, left = None, right = None, parent = None\<rparr>),
       next_addr := Suc (next_addr s)\<rparr>)"

definition delete_node :: "nat \<Rightarrow> ('k, 'v) world \<Rightarrow> ('k, 'v) world option" where
  "delete_node a s = (case nodes s a of None \<Rightarrow> None
     | Some n \<Rightarrow> Some (s\<lparr>nodes := (nodes s)(a := None)\<rparr>))"

section \<open>The private helpers of the tree\<close>

text \<open>\<^verbatim>\<open>is_red(x) = x && x->color\<close>, \<^verbatim>\<open>is_black(x) = !x || !x->color\<close>.\<close>

definition is_red :: "('k, 'v) world \<Rightarrow> ptr \<Rightarrow> bool option" where
  "is_red s x = (case x of None \<Rightarrow> Some False | Some a \<Rightarrow> get_color s a)"

definition is_black :: "('k, 'v) world \<Rightarrow> ptr \<Rightarrow> bool option" where
  "is_black s x = (case x of None \<Rightarrow> Some True | Some a \<Rightarrow> map_option Not (get_color s a))"

text \<open>\<^verbatim>\<open>while (x->left) x = x->left;\<close> and its mirror.\<close>

partial_function (option) min_loop :: "('k, 'v) world \<Rightarrow> nat \<Rightarrow> nat option" where
  "min_loop s x = do {
     l \<leftarrow> get_left s x;
     case l of None \<Rightarrow> Some x | Some y \<Rightarrow> min_loop s y }"

declare min_loop.simps [code]

partial_function (option) max_loop :: "('k, 'v) world \<Rightarrow> nat \<Rightarrow> nat option" where
  "max_loop s x = do {
     r \<leftarrow> get_right s x;
     case r of None \<Rightarrow> Some x | Some y \<Rightarrow> max_loop s y }"

declare max_loop.simps [code]

definition min_node :: "('k, 'v) world \<Rightarrow> ptr \<Rightarrow> ptr option" where
  "min_node s x = (case x of None \<Rightarrow> Some None | Some a \<Rightarrow> map_option Some (min_loop s a))"

definition max_node :: "('k, 'v) world \<Rightarrow> ptr \<Rightarrow> ptr option" where
  "max_node s x = (case x of None \<Rightarrow> Some None | Some a \<Rightarrow> map_option Some (max_loop s a))"

definition eq_key :: "('k \<Rightarrow> 'k \<Rightarrow> bool) \<Rightarrow> 'k \<Rightarrow> 'k \<Rightarrow> bool" where
  "eq_key cmp a b = (\<not> cmp a b \<and> \<not> cmp b a)"

text \<open>The descent of \<^verbatim>\<open>find_node\<close>, started at \<^verbatim>\<open>cur = root\<close>.\<close>

partial_function (option) find_loop :: "('k \<Rightarrow> 'k \<Rightarrow> bool) \<Rightarrow> 'k \<Rightarrow> ('k, 'v) world \<Rightarrow> ptr \<Rightarrow> ptr option" where
  "find_loop cmp k s c = (case c of None \<Rightarrow> Some None
     | Some a \<Rightarrow> do {
         n \<leftarrow> nodes s a;
         if cmp k (data_first n) then find_loop cmp k s (left n)
         else if cmp (data_first n) k then find_loop cmp k s (right n)
         else Some (Some a) })"

declare find_loop.simps [code]

definition find_node :: "('k \<Rightarrow> 'k \<Rightarrow> bool) \<Rightarrow> nat \<Rightarrow> 'k \<Rightarrow> ('k, 'v) world \<Rightarrow> ptr option" where
  "find_node cmp this k s = do { r \<leftarrow> get_root s this; find_loop cmp k s r }"

text \<open>
  \<^verbatim>\<open>left_rotate(x)\<close>: \<^verbatim>\<open>y = x->right\<close> must exist; the statements of the source one by one.
\<close>

definition left_rotate :: "nat \<Rightarrow> nat \<Rightarrow> ('k, 'v) world \<Rightarrow> ('k, 'v) world option" where
  "left_rotate this x s = do {
     yp \<leftarrow> get_right s x;
     y \<leftarrow> yp;
     yl \<leftarrow> get_left s y;
     s \<leftarrow> set_right x yl s;
     s \<leftarrow> set_parent_if yl (Some x) s;
     xp \<leftarrow> get_parent s x;
     s \<leftarrow> set_parent y xp s;
     s \<leftarrow> (case xp of None \<Rightarrow> set_root this (Some y) s
          | Some p \<Rightarrow> do {
              pl \<leftarrow> get_left s p;
              if Some x = pl then set_left p (Some y) s else set_right p (Some y) s });
     s \<leftarrow> set_left y (Some x) s;
     set_parent x (Some y) s }"

definition right_rotate :: "nat \<Rightarrow> nat \<Rightarrow> ('k, 'v) world \<Rightarrow> ('k, 'v) world option" where
  "right_rotate this x s = do {
     yp \<leftarrow> get_left s x;
     y \<leftarrow> yp;
     yr \<leftarrow> get_right s y;
     s \<leftarrow> set_left x yr s;
     s \<leftarrow> set_parent_if yr (Some x) s;
     xp \<leftarrow> get_parent s x;
     s \<leftarrow> set_parent y xp s;
     s \<leftarrow> (case xp of None \<Rightarrow> set_root this (Some y) s
          | Some p \<Rightarrow> do {
              pr \<leftarrow> get_right s p;
              if Some x = pr then set_right p (Some y) s else set_left p (Some y) s });
     s \<leftarrow> set_right y (Some x) s;
     set_parent x (Some y) s }"


text \<open>
  One turn of the loop of \<^verbatim>\<open>insert_fix\<close>, entered when \<^verbatim>\<open>z->parent\<close> is red; it
  returns the new \<^verbatim>\<open>z\<close>. The two halves are the branches \<^verbatim>\<open>p == g->left\<close> and its mirror.
\<close>

definition insert_fix_body :: "nat \<Rightarrow> nat \<Rightarrow> ('k, 'v) world \<Rightarrow> (nat \<times> ('k, 'v) world) option" where
  "insert_fix_body this z s = do {
     zp \<leftarrow> get_parent s z;
     p \<leftarrow> zp;
     gp \<leftarrow> get_parent s p;
     g \<leftarrow> gp;
     gl \<leftarrow> get_left s g;
     if Some p = gl then do {
       u \<leftarrow> get_right s g;
       ur \<leftarrow> is_red s u;
       if ur then do {
         s \<leftarrow> set_color p False s;
         ua \<leftarrow> u;
         s \<leftarrow> set_color ua False s;
         s \<leftarrow> set_color g True s;
         Some (g, s) }
       else do {
         pr \<leftarrow> get_right s p;
         (z, p, g, s) \<leftarrow> (if Some z = pr then do {
             s \<leftarrow> left_rotate this p s;
             pp \<leftarrow> get_parent s p;
             p' \<leftarrow> pp;
             gp' \<leftarrow> get_parent s p';
             g' \<leftarrow> gp';
             Some (p, p', g', s) }
           else Some (z, p, g, s));
         s \<leftarrow> set_color p False s;
         s \<leftarrow> set_color g True s;
         s \<leftarrow> right_rotate this g s;
         Some (z, s) } }
     else do {
       u \<leftarrow> get_left s g;
       ur \<leftarrow> is_red s u;
       if ur then do {
         s \<leftarrow> set_color p False s;
         ua \<leftarrow> u;
         s \<leftarrow> set_color ua False s;
         s \<leftarrow> set_color g True s;
         Some (g, s) }
       else do {
         pl \<leftarrow> get_left s p;
         (z, p, g, s) \<leftarrow> (if Some z = pl then do {
             s \<leftarrow> right_rotate this p s;
             pp \<leftarrow> get_parent s p;
             p' \<leftarrow> pp;
             gp' \<leftarrow> get_parent s p';
             g' \<leftarrow> gp';
             Some (p, p', g', s) }
           else Some (z, p, g, s));
         s \<leftarrow> set_color p False s;
         s \<leftarrow> set_color g True s;
         s \<leftarrow> left_rotate this g s;
         Some (z, s) } } }"

text \<open>
  \<^verbatim>\<open>while (z->parent && z->parent->color) { ... }  if (root) root->color = false;\<close>
\<close>

partial_function (option) insert_fix :: "nat \<Rightarrow> nat \<Rightarrow> ('k, 'v) world \<Rightarrow> ('k, 'v) world option" where
  "insert_fix this z s = do {
     zp \<leftarrow> get_parent s z;
     pr \<leftarrow> is_red s zp;
     if pr then do {
       (z', s') \<leftarrow> insert_fix_body this z s;
       insert_fix this z' s' }
     else do {
       r \<leftarrow> get_root s this;
       set_color_if r False s } }"

declare insert_fix.simps [code]

definition transplant :: "nat \<Rightarrow> nat \<Rightarrow> ptr \<Rightarrow> ('k, 'v) world \<Rightarrow> ('k, 'v) world option" where
  "transplant this u v s = do {
     up \<leftarrow> get_parent s u;
     s \<leftarrow> (case up of None \<Rightarrow> set_root this v s
          | Some p \<Rightarrow> do {
              pl \<leftarrow> get_left s p;
              if Some u = pl then set_left p v s else set_right p v s });
     case v of None \<Rightarrow> Some s
     | Some va \<Rightarrow> do { up' \<leftarrow> get_parent s u; set_parent va up' s } }"

text \<open>
  One turn of the loop of \<^verbatim>\<open>erase_fix\<close>: the branch
  \<^verbatim>\<open>x == (x_parent ? x_parent->left : nullptr)\<close> and its mirror. Each returns the new
  \<^verbatim>\<open>x\<close> and \<^verbatim>\<open>x_parent\<close>. The sibling, \<^verbatim>\<open>w\<close> in the source, is \<open>w\<close> here too;
  the store is \<open>s\<close>. Each branch is written in two parts: the block for a red sibling
  (case 1), and the rest, which runs with the sibling \<^verbatim>\<open>w\<close> that block leaves
  (cases 2, 3 and 4). The \<^verbatim>\<open>&&\<close> of the source evaluates its right operand only when
  the left one holds.
\<close>

definition erase_fix_left_rest :: "nat \<Rightarrow> ptr \<Rightarrow> ptr \<Rightarrow> ('k, 'v) world \<Rightarrow> (ptr \<times> ptr \<times> ('k, 'v) world) option" where
  "erase_fix_left_rest this x_parent w s = do {
     wn \<leftarrow> left_of s w;
     bn \<leftarrow> is_black s wn;
     both \<leftarrow> (if bn then do { wf \<leftarrow> right_of s w; is_black s wf } else Some False);
     if both then do {
       s \<leftarrow> set_color_if w True s;
       xp' \<leftarrow> parent_of s x_parent;
       Some (x_parent, xp', s) }
     else do {
       wf \<leftarrow> right_of s w;
       bf \<leftarrow> is_black s wf;
       (w, s) \<leftarrow> (if bf then do {
           wn \<leftarrow> left_of s w;
           s \<leftarrow> set_color_if wn False s;
           s \<leftarrow> (case w of None \<Rightarrow> Some s
                | Some wa \<Rightarrow> do { s \<leftarrow> set_color wa True s; right_rotate this wa s });
           w \<leftarrow> right_of s x_parent;
           Some (w, s) }
         else Some (w, s));
       s \<leftarrow> (case w of None \<Rightarrow> Some s
            | Some wa \<Rightarrow> do {
                c \<leftarrow> (case x_parent of None \<Rightarrow> Some False | Some p \<Rightarrow> get_color s p);
                set_color wa c s });
       s \<leftarrow> set_color_if x_parent False s;
       wf \<leftarrow> right_of s w;
       s \<leftarrow> set_color_if wf False s;
       s \<leftarrow> (case x_parent of None \<Rightarrow> Some s | Some p \<Rightarrow> left_rotate this p s);
       r \<leftarrow> get_root s this;
       Some (r, None, s) } }"

definition erase_fix_left :: "nat \<Rightarrow> ptr \<Rightarrow> ('k, 'v) world \<Rightarrow> (ptr \<times> ptr \<times> ('k, 'v) world) option" where
  "erase_fix_left this x_parent s = do {
     w \<leftarrow> right_of s x_parent;
     wred \<leftarrow> is_red s w;
     (w, s) \<leftarrow> (if wred then do {
         wa \<leftarrow> w;
         s \<leftarrow> set_color wa False s;
         s \<leftarrow> (case x_parent of None \<Rightarrow> Some s
              | Some p \<Rightarrow> do { s \<leftarrow> set_color p True s; left_rotate this p s });
         w \<leftarrow> right_of s x_parent;
         Some (w, s) }
       else Some (w, s));
     erase_fix_left_rest this x_parent w s }"

definition erase_fix_right_rest :: "nat \<Rightarrow> ptr \<Rightarrow> ptr \<Rightarrow> ('k, 'v) world \<Rightarrow> (ptr \<times> ptr \<times> ('k, 'v) world) option" where
  "erase_fix_right_rest this x_parent w s = do {
     wn \<leftarrow> right_of s w;
     bn \<leftarrow> is_black s wn;
     both \<leftarrow> (if bn then do { wf \<leftarrow> left_of s w; is_black s wf } else Some False);
     if both then do {
       s \<leftarrow> set_color_if w True s;
       xp' \<leftarrow> parent_of s x_parent;
       Some (x_parent, xp', s) }
     else do {
       wf \<leftarrow> left_of s w;
       bf \<leftarrow> is_black s wf;
       (w, s) \<leftarrow> (if bf then do {
           wn \<leftarrow> right_of s w;
           s \<leftarrow> set_color_if wn False s;
           s \<leftarrow> (case w of None \<Rightarrow> Some s
                | Some wa \<Rightarrow> do { s \<leftarrow> set_color wa True s; left_rotate this wa s });
           w \<leftarrow> left_of s x_parent;
           Some (w, s) }
         else Some (w, s));
       s \<leftarrow> (case w of None \<Rightarrow> Some s
            | Some wa \<Rightarrow> do {
                c \<leftarrow> (case x_parent of None \<Rightarrow> Some False | Some p \<Rightarrow> get_color s p);
                set_color wa c s });
       s \<leftarrow> set_color_if x_parent False s;
       wf \<leftarrow> left_of s w;
       s \<leftarrow> set_color_if wf False s;
       s \<leftarrow> (case x_parent of None \<Rightarrow> Some s | Some p \<Rightarrow> right_rotate this p s);
       r \<leftarrow> get_root s this;
       Some (r, None, s) } }"

definition erase_fix_right :: "nat \<Rightarrow> ptr \<Rightarrow> ('k, 'v) world \<Rightarrow> (ptr \<times> ptr \<times> ('k, 'v) world) option" where
  "erase_fix_right this x_parent s = do {
     w \<leftarrow> left_of s x_parent;
     wred \<leftarrow> is_red s w;
     (w, s) \<leftarrow> (if wred then do {
         wa \<leftarrow> w;
         s \<leftarrow> set_color wa False s;
         s \<leftarrow> (case x_parent of None \<Rightarrow> Some s
              | Some p \<Rightarrow> do { s \<leftarrow> set_color p True s; right_rotate this p s });
         w \<leftarrow> left_of s x_parent;
         Some (w, s) }
       else Some (w, s));
     erase_fix_right_rest this x_parent w s }"

text \<open>
  \<^verbatim>\<open>while (x != root && is_black(x)) { ... }  if (x) x->color = false;\<close>
\<close>

partial_function (option) erase_fix :: "nat \<Rightarrow> ptr \<Rightarrow> ptr \<Rightarrow> ('k, 'v) world \<Rightarrow> ('k, 'v) world option" where
  "erase_fix this x x_parent s = do {
     r \<leftarrow> get_root s this;
     go \<leftarrow> (if x \<noteq> r then is_black s x else Some False);
     if go then do {
       xl \<leftarrow> left_of s x_parent;
       (x', x_parent', s') \<leftarrow> (if x = xl then erase_fix_left this x_parent s
                               else erase_fix_right this x_parent s);
       erase_fix this x' x_parent' s' }
     else set_color_if x False s }"

declare erase_fix.simps [code]

text \<open>\<^verbatim>\<open>clear_node\<close> (post-order teardown) and \<^verbatim>\<open>clone_subtree\<close> (deep copy).\<close>

partial_function (option) clear_node :: "ptr \<Rightarrow> ('k, 'v) world \<Rightarrow> ('k, 'v) world option" where
  "clear_node x s = (case x of None \<Rightarrow> Some s
     | Some a \<Rightarrow> do {
         l \<leftarrow> get_left s a;
         s \<leftarrow> clear_node l s;
         r \<leftarrow> get_right s a;
         s \<leftarrow> clear_node r s;
         delete_node a s })"

declare clear_node.simps [code]

partial_function (option) clone_subtree :: "nat \<Rightarrow> ptr \<Rightarrow> ptr \<Rightarrow> ('k, 'v) world \<Rightarrow> (ptr \<times> ('k, 'v) world) option" where
  "clone_subtree this par other s = (case other of None \<Rightarrow> Some (None, s)
     | Some oa \<Rightarrow> do {
         n \<leftarrow> nodes s oa;
         (x, s) \<leftarrow> Some (new_node (data_first n) (data_second n) s);
         oc \<leftarrow> get_color s oa;
         s \<leftarrow> set_color x oc s;
         s \<leftarrow> set_parent x par s;
         ol \<leftarrow> get_left s oa;
         (l, s) \<leftarrow> clone_subtree this (Some x) ol s;
         s \<leftarrow> set_left x l s;
         orr \<leftarrow> get_right s oa;
         (r, s) \<leftarrow> clone_subtree this (Some x) orr s;
         s \<leftarrow> set_right x r s;
         c \<leftarrow> get_count s this;
         s \<leftarrow> set_count this (Suc c) s;
         Some (Some x, s) })"

declare clone_subtree.simps [code]


section \<open>Cursors\<close>

text \<open>
  \<^verbatim>\<open>iterator\<close> and \<^verbatim>\<open>const_iterator\<close> hold the same two pointers and run the same code;
  one record and one set of operations stands for both.
  \<^verbatim>\<open>while (p && x == p->right) { x = p; p = p->parent; } return p;\<close> and its mirror:
\<close>

partial_function (option) next_loop :: "('k, 'v) world \<Rightarrow> nat \<Rightarrow> ptr \<Rightarrow> ptr option" where
  "next_loop s x p = (case p of None \<Rightarrow> Some None
     | Some pa \<Rightarrow> do {
         pr \<leftarrow> get_right s pa;
         if Some x = pr then do { pp \<leftarrow> get_parent s pa; next_loop s pa pp }
         else Some (Some pa) })"

declare next_loop.simps [code]

partial_function (option) prev_loop :: "('k, 'v) world \<Rightarrow> nat \<Rightarrow> ptr \<Rightarrow> ptr option" where
  "prev_loop s x p = (case p of None \<Rightarrow> Some None
     | Some pa \<Rightarrow> do {
         pl \<leftarrow> get_left s pa;
         if Some x = pl then do { pp \<leftarrow> get_parent s pa; prev_loop s pa pp }
         else Some (Some pa) })"

declare prev_loop.simps [code]

definition next_node :: "('k, 'v) world \<Rightarrow> ptr \<Rightarrow> ptr option" where
  "next_node s x = (case x of None \<Rightarrow> Some None
     | Some a \<Rightarrow> do {
         r \<leftarrow> get_right s a;
         case r of Some ra \<Rightarrow> min_node s r
         | None \<Rightarrow> do { p \<leftarrow> get_parent s a; next_loop s a p } })"

definition prev_node :: "('k, 'v) world \<Rightarrow> ptr \<Rightarrow> ptr option" where
  "prev_node s x = (case x of None \<Rightarrow> Some None
     | Some a \<Rightarrow> do {
         l \<leftarrow> get_left s a;
         case l of Some la \<Rightarrow> max_node s l
         | None \<Rightarrow> do { p \<leftarrow> get_parent s a; prev_loop s a p } })"

text \<open>\<^verbatim>\<open>iterator()\<close>: both pointers null.\<close>

definition default_iterator :: iterator where
  "default_iterator = \<lparr>owner = None, cur = None\<rparr>"

text \<open>\<^verbatim>\<open>operator++()\<close> and \<^verbatim>\<open>operator--()\<close>; a throw is \<open>Inl\<close>.\<close>

definition iter_inc :: "('k, 'v) world \<Rightarrow> iterator \<Rightarrow> (error + iterator) option" where
  "iter_inc s it =
     (if owner it = None then Some (Inl Invalid_iterator)
      else if cur it = None then Some (Inl Invalid_iterator)
      else do { nxt \<leftarrow> next_node s (cur it); Some (Inr (it\<lparr>cur := nxt\<rparr>)) })"

definition iter_dec :: "('k, 'v) world \<Rightarrow> iterator \<Rightarrow> (error + iterator) option" where
  "iter_dec s it =
     (case owner it of None \<Rightarrow> Some (Inl Invalid_iterator)
      | Some ow \<Rightarrow>
          if cur it = None then do {
            r \<leftarrow> get_root s ow;
            if r = None then Some (Inl Invalid_iterator)
            else do { m \<leftarrow> max_node s r; Some (Inr (it\<lparr>cur := m\<rparr>)) } }
          else do {
            prv \<leftarrow> prev_node s (cur it);
            if prv = None then Some (Inl Invalid_iterator)
            else Some (Inr (it\<lparr>cur := prv\<rparr>)) })"

text \<open>
  \<^verbatim>\<open>operator*()\<close> returns a reference to \<^verbatim>\<open>cur->data\<close>; the model returns the pair read
  through it. \<^verbatim>\<open>operator->()\<close> is declared \<^verbatim>\<open>noexcept\<close> and returns \<^verbatim>\<open>&cur->data\<close>
  with no test at all: its result is the pointer, whatever \<^verbatim>\<open>cur\<close> is.
\<close>

definition iter_deref :: "('k, 'v) world \<Rightarrow> iterator \<Rightarrow> (error + 'k \<times> 'v) option" where
  "iter_deref s it = (case cur it of None \<Rightarrow> Some (Inl Invalid_iterator)
     | Some a \<Rightarrow> do { n \<leftarrow> nodes s a; Some (Inr (data_first n, data_second n)) })"

definition iter_arrow :: "iterator \<Rightarrow> error + ptr" where
  "iter_arrow it = Inr (cur it)"

definition iter_eq :: "iterator \<Rightarrow> iterator \<Rightarrow> bool" where
  "iter_eq a b = (owner a = owner b \<and> cur a = cur b)"

section \<open>The public operations of the map\<close>

text \<open>
  \<^verbatim>\<open>map()\<close> builds an empty map in the storage \<open>this\<close>. The copy constructor starts from
  \<^verbatim>\<open>root(nullptr), node_count(0)\<close> and clones; copy assignment returns at once on
  self-assignment, else clears and clones.
\<close>

definition map_ctor :: "nat \<Rightarrow> ('k, 'v) world \<Rightarrow> ('k, 'v) world" where
  "map_ctor this s = s\<lparr>maps := (maps s)(this \<mapsto> \<lparr>root = None, node_count = 0\<rparr>)\<rparr>"

definition clear :: "nat \<Rightarrow> ('k, 'v) world \<Rightarrow> ('k, 'v) world option" where
  "clear this s = do {
     r \<leftarrow> get_root s this;
     s \<leftarrow> clear_node r s;
     s \<leftarrow> set_root this None s;
     set_count this 0 s }"

definition map_copy :: "nat \<Rightarrow> nat \<Rightarrow> ('k, 'v) world \<Rightarrow> ('k, 'v) world option" where
  "map_copy this other s = do {
     s \<leftarrow> Some (map_ctor this s);
     ro \<leftarrow> get_root s other;
     (r, s) \<leftarrow> clone_subtree this None ro s;
     set_root this r s }"

definition map_assign :: "nat \<Rightarrow> nat \<Rightarrow> ('k, 'v) world \<Rightarrow> ('k, 'v) world option" where
  "map_assign this other s =
     (if this = other then Some s
      else do {
        s \<leftarrow> clear this s;
        ro \<leftarrow> get_root s other;
        (r, s) \<leftarrow> clone_subtree this None ro s;
        set_root this r s })"

text \<open>
  A reference \<^verbatim>\<open>T &\<close> to a stored value is the address of the node that holds it:
  \<open>get_second\<close> reads through it and \<open>set_second\<close> writes through it.
\<close>

definition get_second :: "('k, 'v) world \<Rightarrow> nat \<Rightarrow> 'v option" where
  "get_second s a = map_option data_second (nodes s a)"

definition at :: "('k \<Rightarrow> 'k \<Rightarrow> bool) \<Rightarrow> nat \<Rightarrow> 'k \<Rightarrow> ('k, 'v) world \<Rightarrow> (error + nat) option" where
  "at cmp this k s = do {
     x \<leftarrow> find_node cmp this k s;
     case x of None \<Rightarrow> Some (Inl Index_out_of_bound) | Some a \<Rightarrow> Some (Inr a) }"

text \<open>
  The descent that opens both \<^verbatim>\<open>operator[]\<close> and \<^verbatim>\<open>insert\<close>: it returns \<^verbatim>\<open>cur\<close>
  (the node with an equivalent key, or null) and \<^verbatim>\<open>parent\<close>.
\<close>

partial_function (option) descend :: "('k \<Rightarrow> 'k \<Rightarrow> bool) \<Rightarrow> 'k \<Rightarrow> ('k, 'v) world \<Rightarrow> ptr \<Rightarrow> ptr \<Rightarrow> (ptr \<times> ptr) option" where
  "descend cmp k s c par = (case c of None \<Rightarrow> Some (None, par)
     | Some a \<Rightarrow> do {
         n \<leftarrow> nodes s a;
         if cmp k (data_first n) then descend cmp k s (left n) (Some a)
         else if cmp (data_first n) k then descend cmp k s (right n) (Some a)
         else Some (Some a, Some a) })"

declare descend.simps [code]

text \<open>
  The statements both functions run when the key is new, in two steps: \<open>attach_new\<close>
  allocates \<^verbatim>\<open>z\<close>, links it under \<^verbatim>\<open>parent\<close> and runs \<^verbatim>\<open>++node_count\<close>;
  \<open>link_new\<close> then calls \<^verbatim>\<open>insert_fix(z)\<close>.
\<close>

definition attach_new :: "('k \<Rightarrow> 'k \<Rightarrow> bool) \<Rightarrow> nat \<Rightarrow> 'k \<Rightarrow> 'v \<Rightarrow> ptr \<Rightarrow> ('k, 'v) world \<Rightarrow> (nat \<times> ('k, 'v) world) option" where
  "attach_new cmp this k v par s = do {
     (z, s) \<leftarrow> Some (new_node k v s);
     s \<leftarrow> set_parent z par s;
     s \<leftarrow> (case par of None \<Rightarrow> set_root this (Some z) s
          | Some p \<Rightarrow> do {
              zk \<leftarrow> get_key s z;
              pk \<leftarrow> get_key s p;
              if cmp zk pk then set_left p (Some z) s else set_right p (Some z) s });
     c \<leftarrow> get_count s this;
     s \<leftarrow> set_count this (Suc c) s;
     Some (z, s) }"

definition link_new :: "('k \<Rightarrow> 'k \<Rightarrow> bool) \<Rightarrow> nat \<Rightarrow> 'k \<Rightarrow> 'v \<Rightarrow> ptr \<Rightarrow> ('k, 'v) world \<Rightarrow> (nat \<times> ('k, 'v) world) option" where
  "link_new cmp this k v par s = do {
     (z, s) \<leftarrow> attach_new cmp this k v par s;
     s \<leftarrow> insert_fix this z s;
     Some (z, s) }"

text \<open>\<^verbatim>\<open>T &operator[](const Key &)\<close>: the reference and the new store.\<close>

definition index_access :: "('k \<Rightarrow> 'k \<Rightarrow> bool) \<Rightarrow> 'v \<Rightarrow> nat \<Rightarrow> 'k \<Rightarrow> ('k, 'v) world \<Rightarrow> (nat \<times> ('k, 'v) world) option" where
  "index_access cmp dflt this k s = do {
     r \<leftarrow> get_root s this;
     (c, par) \<leftarrow> descend cmp k s r None;
     case c of Some a \<Rightarrow> Some (a, s)
     | None \<Rightarrow> link_new cmp this k dflt par s }"

text \<open>\<^verbatim>\<open>const T &operator[](const Key &key) const { return at(key); }\<close>\<close>

definition index_const :: "('k \<Rightarrow> 'k \<Rightarrow> bool) \<Rightarrow> nat \<Rightarrow> 'k \<Rightarrow> ('k, 'v) world \<Rightarrow> (error + nat) option" where
  "index_const cmp this k s = at cmp this k s"

definition map_begin :: "nat \<Rightarrow> ('k, 'v) world \<Rightarrow> iterator option" where
  "map_begin this s = do {
     r \<leftarrow> get_root s this;
     m \<leftarrow> min_node s r;
     Some \<lparr>owner = Some this, cur = m\<rparr> }"

definition map_end :: "nat \<Rightarrow> iterator" where
  "map_end this = \<lparr>owner = Some this, cur = None\<rparr>"

definition map_empty :: "nat \<Rightarrow> ('k, 'v) world \<Rightarrow> bool option" where
  "map_empty this s = do { c \<leftarrow> get_count s this; Some (c = 0) }"

definition map_size :: "nat \<Rightarrow> ('k, 'v) world \<Rightarrow> nat option" where
  "map_size this s = get_count s this"

text \<open>\<^verbatim>\<open>insert(value)\<close>: the pair (cursor, inserted) and the new store.\<close>

definition map_insert :: "('k \<Rightarrow> 'k \<Rightarrow> bool) \<Rightarrow> nat \<Rightarrow> 'k \<times> 'v \<Rightarrow> ('k, 'v) world \<Rightarrow> ((iterator \<times> bool) \<times> ('k, 'v) world) option" where
  "map_insert cmp this kv s = do {
     r \<leftarrow> get_root s this;
     (c, par) \<leftarrow> descend cmp (fst kv) s r None;
     case c of Some a \<Rightarrow> Some ((\<lparr>owner = Some this, cur = Some a\<rparr>, False), s)
     | None \<Rightarrow> do {
         (z, s) \<leftarrow> link_new cmp this (fst kv) (snd kv) par s;
         Some ((\<lparr>owner = Some this, cur = Some z\<rparr>, True), s) } }"

text \<open>
  \<^verbatim>\<open>erase(pos)\<close>, in two parts. \<open>erase_unlink\<close> is the three-way branch that takes
  \<^verbatim>\<open>z\<close> out of the tree: it returns \<^verbatim>\<open>y_original_color\<close>, \<^verbatim>\<open>x\<close> and
  \<^verbatim>\<open>x_parent\<close>. \<open>erase\<close> is the guard, the branch, \<^verbatim>\<open>delete z\<close>,
  \<^verbatim>\<open>--node_count\<close> (a \<^verbatim>\<open>size_t\<close>: it wraps at 0), the fix-up and the final
  blackening of the root. A throw leaves the store as it was, so the result pairs the
  exception (if any) with the store after the call.
\<close>

definition erase_unlink :: "nat \<Rightarrow> nat \<Rightarrow> ('k, 'v) world \<Rightarrow> (bool \<times> ptr \<times> ptr \<times> ('k, 'v) world) option" where
  "erase_unlink this z s = do {
     zc \<leftarrow> get_color s z;
     zl \<leftarrow> get_left s z;
     zr \<leftarrow> get_right s z;
     if zl = None then do {
       zp \<leftarrow> get_parent s z;
       s \<leftarrow> transplant this z zr s;
       Some (zc, zr, zp, s) }
     else if zr = None then do {
       zp \<leftarrow> get_parent s z;
       s \<leftarrow> transplant this z zl s;
       Some (zc, zl, zp, s) }
     else do {
       ym \<leftarrow> min_node s zr;
       y \<leftarrow> ym;
       yc \<leftarrow> get_color s y;
       x \<leftarrow> get_right s y;
       yp \<leftarrow> get_parent s y;
       (x_parent, s) \<leftarrow> (if yp = Some z then do {
           s \<leftarrow> set_parent_if x (Some y) s;
           Some (Some y, s) }
         else do {
           yr \<leftarrow> get_right s y;
           s \<leftarrow> transplant this y yr s;
           zr' \<leftarrow> get_right s z;
           s \<leftarrow> set_right y zr' s;
           s \<leftarrow> set_parent_if zr' (Some y) s;
           Some (yp, s) });
       s \<leftarrow> transplant this z (Some y) s;
       zl' \<leftarrow> get_left s z;
       s \<leftarrow> set_left y zl' s;
       s \<leftarrow> set_parent_if zl' (Some y) s;
       zc' \<leftarrow> get_color s z;
       s \<leftarrow> set_color y zc' s;
       Some (yc, x, x_parent, s) } }"

definition erase :: "nat \<Rightarrow> iterator \<Rightarrow> ('k, 'v) world \<Rightarrow> (error option \<times> ('k, 'v) world) option" where
  "erase this pos s =
     (if owner pos \<noteq> Some this \<or> cur pos = None then Some (Some Invalid_iterator, s)
      else do {
        z \<leftarrow> cur pos;
        (y_original_color, x, x_parent, s) \<leftarrow> erase_unlink this z s;
        s \<leftarrow> delete_node z s;
        c \<leftarrow> get_count s this;
        s \<leftarrow> set_count this (if c = 0 then 2 ^ 64 - 1 else c - 1) s;
        s \<leftarrow> (if \<not> y_original_color then erase_fix this x x_parent s else Some s);
        r \<leftarrow> get_root s this;
        s \<leftarrow> set_color_if r False s;
        Some (None, s) })"

definition count :: "('k \<Rightarrow> 'k \<Rightarrow> bool) \<Rightarrow> nat \<Rightarrow> 'k \<Rightarrow> ('k, 'v) world \<Rightarrow> nat option" where
  "count cmp this k s = do { x \<leftarrow> find_node cmp this k s; Some (if x \<noteq> None then 1 else 0) }"

definition map_find :: "('k \<Rightarrow> 'k \<Rightarrow> bool) \<Rightarrow> nat \<Rightarrow> 'k \<Rightarrow> ('k, 'v) world \<Rightarrow> iterator option" where
  "map_find cmp this k s = do { x \<leftarrow> find_node cmp this k s; Some \<lparr>owner = Some this, cur = x\<rparr> }"


text \<open>
  A full traversal, as a client writes it:
  \<^verbatim>\<open>for (it = begin(); it != end(); ++it) visit(*it);\<close>
  It returns the entries visited, in the order of the visit, or the exception that stopped it.
\<close>

partial_function (option) traverse :: "('k, 'v) world \<Rightarrow> iterator \<Rightarrow> iterator \<Rightarrow> (error + ('k \<times> 'v) list) option" where
  "traverse s it fin =
     (if iter_eq it fin then Some (Inr [])
      else do {
        d \<leftarrow> iter_deref s it;
        case d of Inl e \<Rightarrow> Some (Inl e)
        | Inr kv \<Rightarrow> do {
            n \<leftarrow> iter_inc s it;
            case n of Inl e \<Rightarrow> Some (Inl e)
            | Inr it' \<Rightarrow> do {
                rest \<leftarrow> traverse s it' fin;
                case rest of Inl e \<Rightarrow> Some (Inl e) | Inr kvs \<Rightarrow> Some (Inr (kv # kvs)) } } })"

declare traverse.simps [code]

definition entries :: "nat \<Rightarrow> ('k, 'v) world \<Rightarrow> (error + ('k \<times> 'v) list) option" where
  "entries this s = do { b \<leftarrow> map_begin this s; traverse s b (map_end this) }"

text \<open>The store before any object is built.\<close>

definition empty_world :: "('k, 'v) world" where
  "empty_world = \<lparr>nodes = (\<lambda>a. None), maps = (\<lambda>a. None), next_addr = 0\<rparr>"

section \<open>The tree a store holds\<close>

text \<open>
  What the invariants and the proofs speak about: the binary tree of nodes that hangs
  from a pointer. A tree records, for every node, its address and the contents of its
  \<^verbatim>\<open>data\<close> and \<^verbatim>\<open>color\<close> fields; \<open>tree_at h par t\<close> says that the store \<open>h\<close> holds
  exactly \<open>t\<close> below a node (or a root slot) \<open>par\<close>: every node of \<open>t\<close> is live at
  its address with these contents, its child pointers lead to the two subtrees and its
  parent pointer leads back.
\<close>

datatype ('k, 'v) tree = Lf | Br "('k, 'v) tree" nat 'k 'v bool "('k, 'v) tree"

fun ptr_of :: "('k, 'v) tree \<Rightarrow> ptr" where
  "ptr_of Lf = None"
| "ptr_of (Br l a k v c r) = Some a"

fun inorder :: "('k, 'v) tree \<Rightarrow> (nat \<times> 'k \<times> 'v) list" where
  "inorder Lf = []"
| "inorder (Br l a k v c r) = inorder l @ (a, k, v) # inorder r"

definition addrs :: "('k, 'v) tree \<Rightarrow> nat list" where
  "addrs t = map fst (inorder t)"

definition items :: "('k, 'v) tree \<Rightarrow> ('k \<times> 'v) list" where
  "items t = map snd (inorder t)"

fun tree_at :: "(nat \<Rightarrow> ('k, 'v) node option) \<Rightarrow> ptr \<Rightarrow> ('k, 'v) tree \<Rightarrow> bool" where
  "tree_at h par Lf = True"
| "tree_at h par (Br l a k v c r) =
     (h a = Some \<lparr>data_first = k, data_second = v, color = c,
                  left = ptr_of l, right = ptr_of r, parent = par\<rparr>
      \<and> tree_at h (Some a) l \<and> tree_at h (Some a) r)"

text \<open>
  The map object at \<open>this\<close> holds the tree \<open>t\<close>: its root pointer leads to \<open>t\<close>, the
  store holds \<open>t\<close> there, and no node occurs twice.
\<close>

definition tree_rep :: "('k, 'v) world \<Rightarrow> nat \<Rightarrow> ('k, 'v) tree \<Rightarrow> bool" where
  "tree_rep s this t =
     (get_root s this = Some (ptr_of t) \<and> tree_at (nodes s) None t \<and> distinct (addrs t))"

text \<open>
  The fix-up loops walk from a node towards the root, so the proofs split a tree into a
  subtree and the path above it: a list of frames, innermost first. \<open>InL a k v c r\<close> is a
  node whose left child is the hole, \<open>InR l a k v c\<close> one whose right child is the hole.
\<close>

datatype ('k, 'v) frame =
  InL nat 'k 'v bool "('k, 'v) tree"
| InR "('k, 'v) tree" nat 'k 'v bool

fun fill :: "('k, 'v) frame \<Rightarrow> ('k, 'v) tree \<Rightarrow> ('k, 'v) tree" where
  "fill (InL a k v c r) t = Br t a k v c r"
| "fill (InR l a k v c) t = Br l a k v c t"

fun plug :: "('k, 'v) frame list \<Rightarrow> ('k, 'v) tree \<Rightarrow> ('k, 'v) tree" where
  "plug [] t = t"
| "plug (f # cs) t = plug cs (fill f t)"

fun faddr :: "('k, 'v) frame \<Rightarrow> nat" where
  "faddr (InL a k v c r) = a"
| "faddr (InR l a k v c) = a"

fun fcolor :: "('k, 'v) frame \<Rightarrow> bool" where
  "fcolor (InL a k v c r) = c"
| "fcolor (InR l a k v c) = c"

fun cpar :: "('k, 'v) frame list \<Rightarrow> ptr" where
  "cpar [] = None"
| "cpar (f # cs) = Some (faddr f)"

fun before :: "('k, 'v) frame list \<Rightarrow> (nat \<times> 'k \<times> 'v) list" where
  "before [] = []"
| "before (InL a k v c r # cs) = before cs"
| "before (InR l a k v c # cs) = before cs @ inorder l @ [(a, k, v)]"

fun after :: "('k, 'v) frame list \<Rightarrow> (nat \<times> 'k \<times> 'v) list" where
  "after [] = []"
| "after (InL a k v c r # cs) = (a, k, v) # inorder r @ after cs"
| "after (InR l a k v c # cs) = after cs"

fun ctx_at :: "(nat \<Rightarrow> ('k, 'v) node option) \<Rightarrow> ptr \<Rightarrow> ('k, 'v) frame list \<Rightarrow> bool" where
  "ctx_at h p [] = True"
| "ctx_at h p (InL a k v c r # cs) =
     (h a = Some \<lparr>data_first = k, data_second = v, color = c,
                  left = p, right = ptr_of r, parent = cpar cs\<rparr>
      \<and> tree_at h (Some a) r \<and> ctx_at h (Some a) cs)"
| "ctx_at h p (InR l a k v c # cs) =
     (h a = Some \<lparr>data_first = k, data_second = v, color = c,
                  left = ptr_of l, right = p, parent = cpar cs\<rparr>
      \<and> tree_at h (Some a) l \<and> ctx_at h (Some a) cs)"

text \<open>
  What an operation on the map at \<open>this\<close> may touch: nodes with addresses in \<open>A\<close>, and
  the root pointer of \<open>this\<close>. Every other node, every other map object, the count of
  \<open>this\<close> and the allocator stay as they were.
\<close>

definition unchanged_outside :: "nat set \<Rightarrow> nat \<Rightarrow> ('k, 'v) world \<Rightarrow> ('k, 'v) world \<Rightarrow> bool" where
  "unchanged_outside A this s s' =
     ((\<forall>a. a \<notin> A \<longrightarrow> nodes s' a = nodes s a)
      \<and> (\<forall>m. m \<noteq> this \<longrightarrow> maps s' m = maps s m)
      \<and> get_count s' this = get_count s this
      \<and> next_addr s' = next_addr s)"

text \<open>The part of it that insertion and removal keep too.\<close>

definition others_unchanged :: "nat set \<Rightarrow> nat \<Rightarrow> ('k, 'v) world \<Rightarrow> ('k, 'v) world \<Rightarrow> bool" where
  "others_unchanged A this s s' =
     ((\<forall>a. a \<notin> A \<longrightarrow> nodes s' a = nodes s a)
      \<and> (\<forall>m. m \<noteq> this \<longrightarrow> maps s' m = maps s m))"

section \<open>The red-black invariants\<close>

text \<open>
  \<open>True\<close> is red, as in the source. \<open>color_of\<close> reads a null child as black, \<open>bh\<close>
  counts the black nodes down the left spine, \<open>invh\<close> says that every path to a null
  descendant passes through equally many black nodes, \<open>invc\<close> that no red node has a red
  child.
\<close>

fun color_of :: "('k, 'v) tree \<Rightarrow> bool" where
  "color_of Lf = False"
| "color_of (Br l a k v c r) = c"

fun bh :: "('k, 'v) tree \<Rightarrow> nat" where
  "bh Lf = 0"
| "bh (Br l a k v c r) = (if c then bh l else Suc (bh l))"

fun invh :: "('k, 'v) tree \<Rightarrow> bool" where
  "invh Lf = True"
| "invh (Br l a k v c r) = (bh l = bh r \<and> invh l \<and> invh r)"

fun invc :: "('k, 'v) tree \<Rightarrow> bool" where
  "invc Lf = True"
| "invc (Br l a k v c r) = ((c \<longrightarrow> \<not> color_of l \<and> \<not> color_of r) \<and> invc l \<and> invc r)"

definition rbt :: "('k, 'v) tree \<Rightarrow> bool" where
  "rbt t = (\<not> color_of t \<and> invc t \<and> invh t)"

text \<open>
  The same invariants for a path, seen from its hole: \<open>invh_ctx cs n\<close> says that the tree
  is balanced once a balanced subtree of black height \<open>n\<close> fills the hole, and
  \<open>invc_ctx cs hc\<close> that no red node of the path has a red child once a subtree whose
  root has the colour \<open>hc\<close> fills it.
\<close>

fun caddrs :: "('k, 'v) frame list \<Rightarrow> nat list" where
  "caddrs [] = []"
| "caddrs (InL a k v c r # cs) = a # addrs r @ caddrs cs"
| "caddrs (InR l a k v c # cs) = a # addrs l @ caddrs cs"

fun invh_ctx :: "('k, 'v) frame list \<Rightarrow> nat \<Rightarrow> bool" where
  "invh_ctx [] n = True"
| "invh_ctx (InL a k v c r # cs) n = (bh r = n \<and> invh r \<and> invh_ctx cs (if c then n else Suc n))"
| "invh_ctx (InR l a k v c # cs) n = (bh l = n \<and> invh l \<and> invh_ctx cs (if c then n else Suc n))"

fun invc_ctx :: "('k, 'v) frame list \<Rightarrow> bool \<Rightarrow> bool" where
  "invc_ctx [] hc = True"
| "invc_ctx (InL a k v c r # cs) hc = ((c \<longrightarrow> \<not> hc \<and> \<not> color_of r) \<and> invc r \<and> invc_ctx cs c)"
| "invc_ctx (InR l a k v c # cs) hc = ((c \<longrightarrow> \<not> hc \<and> \<not> color_of l) \<and> invc l \<and> invc_ctx cs c)"

fun blacken :: "('k, 'v) tree \<Rightarrow> ('k, 'v) tree" where
  "blacken Lf = Lf"
| "blacken (Br l a k v c r) = Br l a k v False r"

text \<open>
  The loop invariant of \<^verbatim>\<open>insert_fix\<close>, for the subtree \<open>t\<close> at \<^verbatim>\<open>z\<close> and the path
  \<open>cs\<close> above it: \<^verbatim>\<open>z\<close> is red, the only possible violations are a red parent of
  \<^verbatim>\<open>z\<close> or a red root \<^verbatim>\<open>z\<close>.
\<close>

definition ins_inv :: "('k, 'v) frame list \<Rightarrow> ('k, 'v) tree \<Rightarrow> bool" where
  "ins_inv cs t =
     (color_of t \<and> invc t \<and> invh t \<and> invh_ctx cs (bh t) \<and> invc_ctx cs False
      \<and> (cs \<noteq> [] \<longrightarrow> \<not> fcolor (last cs)))"

section \<open>Search trees\<close>

text \<open>
  The ordering predicate is a strict weak ordering, as the standard requires of
  \<^verbatim>\<open>Compare\<close>: irreflexive, transitive, and with a transitive incomparability.
\<close>

definition strict_weak_order :: "('k \<Rightarrow> 'k \<Rightarrow> bool) \<Rightarrow> bool" where
  "strict_weak_order cmp =
     ((\<forall>x. \<not> cmp x x)
      \<and> (\<forall>x y z. cmp x y \<longrightarrow> cmp y z \<longrightarrow> cmp x z)
      \<and> (\<forall>x y z. eq_key cmp x y \<longrightarrow> eq_key cmp y z \<longrightarrow> eq_key cmp x z))"

definition keys :: "('k, 'v) tree \<Rightarrow> 'k list" where
  "keys t = map (\<lambda>e. fst (snd e)) (inorder t)"

definition bst :: "('k \<Rightarrow> 'k \<Rightarrow> bool) \<Rightarrow> ('k, 'v) tree \<Rightarrow> bool" where
  "bst cmp t = sorted_wrt cmp (keys t)"

text \<open>The descent of \<^verbatim>\<open>find_node\<close> on a tree: the address it ends at.\<close>

fun tfind :: "('k \<Rightarrow> 'k \<Rightarrow> bool) \<Rightarrow> 'k \<Rightarrow> ('k, 'v) tree \<Rightarrow> ptr" where
  "tfind cmp x Lf = None"
| "tfind cmp x (Br l a k v c r) =
     (if cmp x k then tfind cmp x l else if cmp k x then tfind cmp x r else Some a)"

text \<open>
  The descent of \<^verbatim>\<open>insert\<close> for a key with no equivalent in the tree: the path from the
  null link it ends at up to the root, innermost frame first.
\<close>

fun tpath :: "('k \<Rightarrow> 'k \<Rightarrow> bool) \<Rightarrow> 'k \<Rightarrow> ('k, 'v) tree \<Rightarrow> ('k, 'v) frame list \<Rightarrow> ('k, 'v) frame list" where
  "tpath cmp x Lf cs = cs"
| "tpath cmp x (Br l a k v c r) cs =
     (if cmp x k then tpath cmp x l (InL a k v c r # cs)
      else tpath cmp x r (InR l a k v c # cs))"

text \<open>
  Every frame of a descent path lies on the side the comparison chose: the key went left
  at an \<open>InL\<close> frame and did not at an \<open>InR\<close> frame.
\<close>

fun frame_dir :: "('k \<Rightarrow> 'k \<Rightarrow> bool) \<Rightarrow> 'k \<Rightarrow> ('k, 'v) frame \<Rightarrow> bool" where
  "frame_dir cmp x (InL a k v c r) = cmp x k"
| "frame_dir cmp x (InR l a k v c) = (\<not> cmp x k)"

text \<open>A key with an equivalent among the keys of the tree.\<close>

definition has_key :: "('k \<Rightarrow> 'k \<Rightarrow> bool) \<Rightarrow> 'k \<Rightarrow> ('k, 'v) tree \<Rightarrow> bool" where
  "has_key cmp x t = (\<exists>k \<in> set (keys t). eq_key cmp x k)"

text \<open>
  The invariant of one map object: it holds a red-black tree, its count is the number of
  nodes, and all its nodes were handed out by the allocator.
\<close>

definition map_wf :: "('k, 'v) world \<Rightarrow> nat \<Rightarrow> ('k, 'v) tree \<Rightarrow> bool" where
  "map_wf s this t =
     (tree_rep s this t \<and> rbt t \<and> get_count s this = Some (length (inorder t))
      \<and> (\<forall>a \<in> set (addrs t). a < next_addr s))"

text \<open>
  A stretch of a path that ends below the node \<open>tp\<close> instead of at the root, for the
  way from \<^verbatim>\<open>z\<close> down to its successor in \<^verbatim>\<open>erase\<close>.
\<close>

fun seg_at :: "(nat \<Rightarrow> ('k, 'v) node option) \<Rightarrow> ptr \<Rightarrow> ('k, 'v) frame list \<Rightarrow> ptr \<Rightarrow> bool" where
  "seg_at h p [] tp = True"
| "seg_at h p (InL a k v c r # cs) tp =
     (h a = Some \<lparr>data_first = k, data_second = v, color = c,
                  left = p, right = ptr_of r, parent = (if cs = [] then tp else cpar cs)\<rparr>
      \<and> tree_at h (Some a) r \<and> seg_at h (Some a) cs tp)"
| "seg_at h p (InR l a k v c # cs) tp =
     (h a = Some \<lparr>data_first = k, data_second = v, color = c,
                  left = ptr_of l, right = p, parent = (if cs = [] then tp else cpar cs)\<rparr>
      \<and> tree_at h (Some a) l \<and> seg_at h (Some a) cs tp)"

fun is_InL :: "('k, 'v) frame \<Rightarrow> bool" where
  "is_InL (InL a k v c r) = True"
| "is_InL (InR l a k v c) = False"

text \<open>
  The loop invariant of \<^verbatim>\<open>erase_fix\<close>, for the subtree \<open>t\<close> at \<^verbatim>\<open>x\<close> (it may be
  empty) and the path \<open>cs\<close> above it: the paths through \<^verbatim>\<open>x\<close> are one black node
  short, and \<^verbatim>\<open>x\<close> itself may be red under a red parent; blackening \<^verbatim>\<open>x\<close> would
  repair both.
\<close>

definition del_inv :: "('k, 'v) frame list \<Rightarrow> ('k, 'v) tree \<Rightarrow> bool" where
  "del_inv cs t =
     (invh t \<and> invc (blacken t) \<and> invh_ctx cs (Suc (bh t)) \<and> invc_ctx cs False
      \<and> (cs \<noteq> [] \<longrightarrow> \<not> fcolor (last cs)))"

text \<open>The first and the last element of a list, if it has one.\<close>

fun first_of :: "'a list \<Rightarrow> 'a option" where
  "first_of [] = None"
| "first_of (x # xs) = Some x"

definition last_of :: "'a list \<Rightarrow> 'a option" where
  "last_of xs = first_of (rev xs)"

section \<open>Cursors and reachable stores\<close>

text \<open>
  The cursors of a map that a client can hold without having kept one across the removal
  of its node: \<^verbatim>\<open>begin()\<close>, \<^verbatim>\<open>end()\<close>, and what \<^verbatim>\<open>++\<close> makes of such a cursor.
\<close>

inductive cursor_of :: "('k, 'v) world \<Rightarrow> nat \<Rightarrow> iterator \<Rightarrow> bool" for s :: "('k, 'v) world" and this :: nat where
  cursor_begin: "map_begin this s = Some it \<Longrightarrow> cursor_of s this it"
| cursor_end: "cursor_of s this (map_end this)"
| cursor_inc: "cursor_of s this it \<Longrightarrow> iter_inc s it = Some (Inr it') \<Longrightarrow> cursor_of s this it'"

text \<open>
  The stores with one map, at \<open>this\<close>, that insertions and removals build from the empty
  map. A removal takes any cursor that is not a stale cursor of the map.
\<close>

inductive built :: "('k \<Rightarrow> 'k \<Rightarrow> bool) \<Rightarrow> nat \<Rightarrow> ('k, 'v) world \<Rightarrow> bool" for cmp :: "'k \<Rightarrow> 'k \<Rightarrow> bool" and this :: nat where
  built_new: "built cmp this (map_ctor this empty_world)"
| built_insert: "built cmp this s \<Longrightarrow> map_insert cmp this kv s = Some (r, s') \<Longrightarrow> built cmp this s'"
| built_erase: "built cmp this s \<Longrightarrow> (owner pos = Some this \<longrightarrow> cursor_of s this pos)
     \<Longrightarrow> erase this pos s = Some (e, s') \<Longrightarrow> built cmp this s'"

section \<open>A small map to run the theorems on\<close>

text \<open>
  The store after \<^verbatim>\<open>map<nat, nat> m; m.insert({5, 50}); m.insert({3, 30}); m.insert({8, 80});\<close>
  with the map object at address 0 and \<^verbatim>\<open>std::less\<close> as ordering, and the tree it holds.
\<close>

definition demo_world :: "(nat, nat) world" where
  "demo_world = \<lparr>
     nodes = (\<lambda>a. None)
       (0 \<mapsto> \<lparr>data_first = 5, data_second = 50, color = False,
               left = Some 1, right = Some 2, parent = None\<rparr>,
        1 \<mapsto> \<lparr>data_first = 3, data_second = 30, color = True,
               left = None, right = None, parent = Some 0\<rparr>,
        2 \<mapsto> \<lparr>data_first = 8, data_second = 80, color = True,
               left = None, right = None, parent = Some 0\<rparr>),
     maps = (\<lambda>a. None)(0 \<mapsto> \<lparr>root = Some 0, node_count = 3\<rparr>),
     next_addr = 3\<rparr>"

definition demo_tree :: "(nat, nat) tree" where
  "demo_tree = Br (Br Lf 1 3 30 True Lf) 0 5 50 False (Br Lf 2 8 80 True Lf)"

section \<open>Trees, paths and the store\<close>


lemma ptr_of_eq_None [simp]: "(ptr_of t = None) = (t = Lf)"
  by (cases t) auto

lemma addrs_simps [simp]:
  "addrs Lf = []"
  "addrs (Br l a k v c r) = addrs l @ a # addrs r"
  by (simp_all add: addrs_def)

lemma items_simps [simp]:
  "items Lf = []"
  "items (Br l a k v c r) = items l @ (k, v) # items r"
  by (simp_all add: items_def)

lemma inorder_plug: "inorder (plug cs t) = before cs @ inorder t @ after cs"
proof (induction cs arbitrary: t)
  case Nil
  show ?case by simp
next
  case (Cons f cs)
  then show ?case by (cases f) simp_all
qed

lemma set_addrs_plug: "set (addrs (plug cs t)) = set (addrs t) \<union> set (caddrs cs)"
proof (induction cs arbitrary: t)
  case Nil
  show ?case by simp
next
  case (Cons f cs)
  then show ?case by (cases f) auto
qed

lemma distinct_addrs_plug:
  "distinct (addrs (plug cs t)) = (distinct (addrs t) \<and> distinct (caddrs cs) \<and> set (addrs t) \<inter> set (caddrs cs) = {})"
proof (induction cs arbitrary: t)
  case Nil
  show ?case by simp
next
  case (Cons f cs)
  then show ?case by (cases f) auto
qed

lemma ptr_of_mem: "ptr_of t = Some a \<Longrightarrow> a \<in> set (addrs t)"
  by (cases t) auto

lemma ptr_of_neq [simp]:
  "a \<notin> set (addrs t) \<Longrightarrow> (ptr_of t = Some a) = False"
  "a \<notin> set (addrs t) \<Longrightarrow> (Some a = ptr_of t) = False"
  by (cases t; auto)+

lemma tree_at_cong_on:
  "(\<And>a. a \<in> set (addrs t) \<Longrightarrow> h' a = h a) \<Longrightarrow> tree_at h' par t = tree_at h par t"
  by (induction t arbitrary: par) auto

lemma ctx_at_cong_on:
  "(\<And>a. a \<in> set (caddrs cs) \<Longrightarrow> h' a = h a) \<Longrightarrow> ctx_at h' p cs = ctx_at h p cs"
proof (induction cs arbitrary: p)
  case Nil
  show ?case by simp
next
  case (Cons f cs)
  show ?case
  proof (cases f)
    case (InL a k v c r)
    have "tree_at h' (Some a) r = tree_at h (Some a) r"
      using Cons.prems InL by (intro tree_at_cong_on) simp
    moreover have "ctx_at h' (Some a) cs = ctx_at h (Some a) cs"
      using Cons.prems InL by (intro Cons.IH) simp
    moreover have "h' a = h a"
      using Cons.prems InL by simp
    ultimately show ?thesis using InL by simp
  next
    case (InR l a k v c)
    have "tree_at h' (Some a) l = tree_at h (Some a) l"
      using Cons.prems InR by (intro tree_at_cong_on) simp
    moreover have "ctx_at h' (Some a) cs = ctx_at h (Some a) cs"
      using Cons.prems InR by (intro Cons.IH) simp
    moreover have "h' a = h a"
      using Cons.prems InR by simp
    ultimately show ?thesis using InR by simp
  qed
qed

lemma tree_at_upd_notin [simp]:
  "a \<notin> set (addrs t) \<Longrightarrow> tree_at (h(a := x)) par t = tree_at h par t"
  by (rule tree_at_cong_on) auto

lemma ctx_at_upd_notin [simp]:
  "a \<notin> set (caddrs cs) \<Longrightarrow> ctx_at (h(a := x)) p cs = ctx_at h p cs"
  by (rule ctx_at_cong_on) auto

lemma tree_at_plug:
  "tree_at h None (plug cs t) = (tree_at h (cpar cs) t \<and> ctx_at h (ptr_of t) cs)"
proof (induction cs arbitrary: t)
  case Nil
  show ?case by simp
next
  case (Cons f cs)
  then show ?case by (cases f) auto
qed

lemma ptr_of_fill [simp]: "ptr_of (fill f t) = Some (faddr f)"
  by (cases f) auto

lemma ptr_of_plug:
  "ptr_of (plug cs t) = (if cs = [] then ptr_of t else Some (faddr (last cs)))"
  by (induction cs arbitrary: t) auto

lemmas rw_defs = get_left_def get_right_def get_parent_def get_color_def get_key_def
  upd_node_def set_left_def set_right_def set_parent_def set_color_def set_second_def
  set_parent_if_def set_color_if_def left_of_def right_of_def parent_of_def
  get_root_def set_root_def set_count_def get_count_def is_red_def is_black_def

section \<open>Rotations and recolouring on the store\<close>


lemmas rep_defs = tree_rep_def tree_at_plug distinct_addrs_plug set_addrs_plug ptr_of_plug

lemma left_rotate_rep:
  assumes "tree_rep s this (plug cs (Br a x kx vx cx (Br b y ky vy cy c)))"
  shows "\<exists>s'. left_rotate this x s = Some s'
           \<and> tree_rep s' this (plug cs (Br (Br a x kx vx cx b) y ky vy cy c))
           \<and> unchanged_outside (set (addrs (plug cs (Br a x kx vx cx (Br b y ky vy cy c))))) this s s'"
proof (cases cs)
  case Nil
  with assms show ?thesis
    by (cases b) (clarsimp simp add: tree_rep_def left_rotate_def rw_defs unchanged_outside_def)+
next
  case (Cons f cs')
  with assms show ?thesis
    apply (cases f; cases b)
    apply (clarsimp simp add: rep_defs left_rotate_def rw_defs unchanged_outside_def)+
    done
qed

lemma right_rotate_rep:
  assumes "tree_rep s this (plug cs (Br (Br a y ky vy cy b) x kx vx cx c))"
  shows "\<exists>s'. right_rotate this x s = Some s'
           \<and> tree_rep s' this (plug cs (Br a y ky vy cy (Br b x kx vx cx c)))
           \<and> unchanged_outside (set (addrs (plug cs (Br (Br a y ky vy cy b) x kx vx cx c)))) this s s'"
proof (cases cs)
  case Nil
  with assms show ?thesis
    by (cases b) (clarsimp simp add: tree_rep_def right_rotate_def rw_defs unchanged_outside_def)+
next
  case (Cons f cs')
  with assms show ?thesis
    apply (cases f; cases b)
    apply (clarsimp simp add: rep_defs right_rotate_def rw_defs unchanged_outside_def)+
    done
qed

lemma set_color_rep:
  assumes "tree_rep s this (plug cs (Br l a k v c r))"
  shows "\<exists>s'. set_color a c' s = Some s'
           \<and> tree_rep s' this (plug cs (Br l a k v c' r))
           \<and> unchanged_outside (set (addrs (plug cs (Br l a k v c r)))) this s s'"
  using assms
  by (clarsimp simp add: rep_defs rw_defs unchanged_outside_def)

lemma unchanged_outside_trans:
  "unchanged_outside A this s s1 \<Longrightarrow> unchanged_outside B this s1 s2 \<Longrightarrow> A \<subseteq> C \<Longrightarrow> B \<subseteq> C
   \<Longrightarrow> unchanged_outside C this s s2"
proof -
  assume a: "unchanged_outside A this s s1" and b: "unchanged_outside B this s1 s2"
    and ac: "A \<subseteq> C" and bc: "B \<subseteq> C"
  have "nodes s2 x = nodes s x" if "x \<notin> C" for x
  proof -
    from that ac bc have "x \<notin> A" "x \<notin> B" by auto
    with a b show ?thesis by (simp add: unchanged_outside_def)
  qed
  with a b show ?thesis by (simp add: unchanged_outside_def)
qed

lemma tree_at_is_red:
  "tree_at (nodes s) par t \<Longrightarrow> is_red s (ptr_of t) = Some (color_of t)"
  by (cases t) (auto simp: is_red_def get_color_def)

section \<open>One turn of the loop of insert_fix\<close>

lemma unchanged_outside_refl [simp]: "unchanged_outside A this s s"
  by (simp add: unchanged_outside_def)

lemma unchanged_outside_mono:
  "unchanged_outside A this s s' \<Longrightarrow> A \<subseteq> B \<Longrightarrow> unchanged_outside B this s s'"
  by (auto simp: unchanged_outside_def)

lemma unchanged_outside_same:
  "unchanged_outside A this s s1 \<Longrightarrow> unchanged_outside A this s1 s2 \<Longrightarrow> unchanged_outside A this s s2"
  by (simp add: unchanged_outside_def)

lemmas get_defs = get_parent_def get_left_def get_right_def get_color_def get_key_def

text \<open>The parent is the left child of the grandparent, the uncle is red, \<^verbatim>\<open>z\<close> is a left child.\<close>

lemma insert_fix_body_red_ll:
  assumes rep: "tree_rep s this (plug (InL p kp vp True sp # InL g kg vg False (Br ul ua ku vu True ur) # cs) (Br l z k v cz r))"
  shows "\<exists>s'. insert_fix_body this z s = Some (g, s')
           \<and> tree_rep s' this (plug cs (Br (Br (Br l z k v cz r) p kp vp False sp) g kg vg True (Br ul ua ku vu False ur)))
           \<and> unchanged_outside (set (addrs (plug (InL p kp vp True sp # InL g kg vg False (Br ul ua ku vu True ur) # cs) (Br l z k v cz r)))) this s s'"
proof -
  let ?A = "set (addrs (plug (InL p kp vp True sp # InL g kg vg False (Br ul ua ku vu True ur) # cs) (Br l z k v cz r)))"
  have f1: "tree_rep s this (plug (InL g kg vg False (Br ul ua ku vu True ur) # cs) (Br (Br l z k v cz r) p kp vp True sp))"
    using rep by simp
  from set_color_rep[OF f1, of False] obtain s1 where s1: "set_color p False s = Some s1"
     "tree_rep s1 this (plug (InL g kg vg False (Br ul ua ku vu True ur) # cs) (Br (Br l z k v cz r) p kp vp False sp))"
     "unchanged_outside ?A this s s1" by (auto simp: set_addrs_plug)
  have f2: "tree_rep s1 this (plug (InR (Br (Br l z k v cz r) p kp vp False sp) g kg vg False # cs) (Br ul ua ku vu True ur))"
    using s1(2) by simp
  from set_color_rep[OF f2, of False] obtain s2 where s2: "set_color ua False s1 = Some s2"
     "tree_rep s2 this (plug (InR (Br (Br l z k v cz r) p kp vp False sp) g kg vg False # cs) (Br ul ua ku vu False ur))"
     "unchanged_outside ?A this s1 s2" by (auto simp: set_addrs_plug)
  have f3: "tree_rep s2 this (plug cs (Br (Br (Br l z k v cz r) p kp vp False sp) g kg vg False (Br ul ua ku vu False ur)))"
    using s2(2) by simp
  from set_color_rep[OF f3, of True] obtain s3 where s3: "set_color g True s2 = Some s3"
     "tree_rep s3 this (plug cs (Br (Br (Br l z k v cz r) p kp vp False sp) g kg vg True (Br ul ua ku vu False ur)))"
     "unchanged_outside ?A this s2 s3" by (auto simp: set_addrs_plug)
  have "insert_fix_body this z s = Some (g, s3)"
    using rep s1(1,2) s2(1,2) s3(1,2)
    by (clarsimp simp add: insert_fix_body_def rep_defs get_defs is_red_def)
  moreover have "unchanged_outside ?A this s s3"
    using s1(3) s2(3) s3(3) by (blast intro: unchanged_outside_same)
  ultimately show ?thesis using s3(2) by simp
qed


text \<open>The parent is the left child of the grandparent, the uncle is red, \<^verbatim>\<open>z\<close> is a right child.\<close>

lemma insert_fix_body_red_lr:
  assumes rep: "tree_rep s this (plug (InR lp p kp vp True # InL g kg vg False (Br ul ua ku vu True ur) # cs) (Br l z k v cz r))"
  shows "\<exists>s'. insert_fix_body this z s = Some (g, s')
           \<and> tree_rep s' this (plug cs (Br (Br lp p kp vp False (Br l z k v cz r)) g kg vg True (Br ul ua ku vu False ur)))
           \<and> unchanged_outside (set (addrs (plug (InR lp p kp vp True # InL g kg vg False (Br ul ua ku vu True ur) # cs) (Br l z k v cz r)))) this s s'"
proof -
  let ?A = "set (addrs (plug (InR lp p kp vp True # InL g kg vg False (Br ul ua ku vu True ur) # cs) (Br l z k v cz r)))"
  have f1: "tree_rep s this (plug (InL g kg vg False (Br ul ua ku vu True ur) # cs) (Br lp p kp vp True (Br l z k v cz r)))"
    using rep by simp
  from set_color_rep[OF f1, of False] obtain s1 where s1: "set_color p False s = Some s1"
     "tree_rep s1 this (plug (InL g kg vg False (Br ul ua ku vu True ur) # cs) (Br lp p kp vp False (Br l z k v cz r)))"
     "unchanged_outside ?A this s s1" by (auto simp: set_addrs_plug)
  have f2: "tree_rep s1 this (plug (InR (Br lp p kp vp False (Br l z k v cz r)) g kg vg False # cs) (Br ul ua ku vu True ur))"
    using s1(2) by simp
  from set_color_rep[OF f2, of False] obtain s2 where s2: "set_color ua False s1 = Some s2"
     "tree_rep s2 this (plug (InR (Br lp p kp vp False (Br l z k v cz r)) g kg vg False # cs) (Br ul ua ku vu False ur))"
     "unchanged_outside ?A this s1 s2" by (auto simp: set_addrs_plug)
  have f3: "tree_rep s2 this (plug cs (Br (Br lp p kp vp False (Br l z k v cz r)) g kg vg False (Br ul ua ku vu False ur)))"
    using s2(2) by simp
  from set_color_rep[OF f3, of True] obtain s3 where s3: "set_color g True s2 = Some s3"
     "tree_rep s3 this (plug cs (Br (Br lp p kp vp False (Br l z k v cz r)) g kg vg True (Br ul ua ku vu False ur)))"
     "unchanged_outside ?A this s2 s3" by (auto simp: set_addrs_plug)
  have "insert_fix_body this z s = Some (g, s3)"
    using rep s1(1,2) s2(1,2) s3(1,2)
    by (clarsimp simp add: insert_fix_body_def rep_defs get_defs is_red_def)
  moreover have "unchanged_outside ?A this s s3"
    using s1(3) s2(3) s3(3) by (blast intro: unchanged_outside_same)
  ultimately show ?thesis using s3(2) by simp
qed


text \<open>The parent is the right child of the grandparent, the uncle is red, \<^verbatim>\<open>z\<close> is a left child.\<close>

lemma insert_fix_body_red_rl:
  assumes rep: "tree_rep s this (plug (InL p kp vp True sp # InR (Br ul ua ku vu True ur) g kg vg False # cs) (Br l z k v cz r))"
  shows "\<exists>s'. insert_fix_body this z s = Some (g, s')
           \<and> tree_rep s' this (plug cs (Br (Br ul ua ku vu False ur) g kg vg True (Br (Br l z k v cz r) p kp vp False sp)))
           \<and> unchanged_outside (set (addrs (plug (InL p kp vp True sp # InR (Br ul ua ku vu True ur) g kg vg False # cs) (Br l z k v cz r)))) this s s'"
proof -
  let ?A = "set (addrs (plug (InL p kp vp True sp # InR (Br ul ua ku vu True ur) g kg vg False # cs) (Br l z k v cz r)))"
  have f1: "tree_rep s this (plug (InR (Br ul ua ku vu True ur) g kg vg False # cs) (Br (Br l z k v cz r) p kp vp True sp))"
    using rep by simp
  from set_color_rep[OF f1, of False] obtain s1 where s1: "set_color p False s = Some s1"
     "tree_rep s1 this (plug (InR (Br ul ua ku vu True ur) g kg vg False # cs) (Br (Br l z k v cz r) p kp vp False sp))"
     "unchanged_outside ?A this s s1" by (auto simp: set_addrs_plug)
  have f2: "tree_rep s1 this (plug (InL g kg vg False (Br (Br l z k v cz r) p kp vp False sp) # cs) (Br ul ua ku vu True ur))"
    using s1(2) by simp
  from set_color_rep[OF f2, of False] obtain s2 where s2: "set_color ua False s1 = Some s2"
     "tree_rep s2 this (plug (InL g kg vg False (Br (Br l z k v cz r) p kp vp False sp) # cs) (Br ul ua ku vu False ur))"
     "unchanged_outside ?A this s1 s2" by (auto simp: set_addrs_plug)
  have f3: "tree_rep s2 this (plug cs (Br (Br ul ua ku vu False ur) g kg vg False (Br (Br l z k v cz r) p kp vp False sp)))"
    using s2(2) by simp
  from set_color_rep[OF f3, of True] obtain s3 where s3: "set_color g True s2 = Some s3"
     "tree_rep s3 this (plug cs (Br (Br ul ua ku vu False ur) g kg vg True (Br (Br l z k v cz r) p kp vp False sp)))"
     "unchanged_outside ?A this s2 s3" by (auto simp: set_addrs_plug)
  have "insert_fix_body this z s = Some (g, s3)"
    using rep s1(1,2) s2(1,2) s3(1,2)
    by (clarsimp simp add: insert_fix_body_def rep_defs get_defs is_red_def)
  moreover have "unchanged_outside ?A this s s3"
    using s1(3) s2(3) s3(3) by (blast intro: unchanged_outside_same)
  ultimately show ?thesis using s3(2) by simp
qed


text \<open>The parent is the right child of the grandparent, the uncle is red, \<^verbatim>\<open>z\<close> is a right child.\<close>

lemma insert_fix_body_red_rr:
  assumes rep: "tree_rep s this (plug (InR lp p kp vp True # InR (Br ul ua ku vu True ur) g kg vg False # cs) (Br l z k v cz r))"
  shows "\<exists>s'. insert_fix_body this z s = Some (g, s')
           \<and> tree_rep s' this (plug cs (Br (Br ul ua ku vu False ur) g kg vg True (Br lp p kp vp False (Br l z k v cz r))))
           \<and> unchanged_outside (set (addrs (plug (InR lp p kp vp True # InR (Br ul ua ku vu True ur) g kg vg False # cs) (Br l z k v cz r)))) this s s'"
proof -
  let ?A = "set (addrs (plug (InR lp p kp vp True # InR (Br ul ua ku vu True ur) g kg vg False # cs) (Br l z k v cz r)))"
  have f1: "tree_rep s this (plug (InR (Br ul ua ku vu True ur) g kg vg False # cs) (Br lp p kp vp True (Br l z k v cz r)))"
    using rep by simp
  from set_color_rep[OF f1, of False] obtain s1 where s1: "set_color p False s = Some s1"
     "tree_rep s1 this (plug (InR (Br ul ua ku vu True ur) g kg vg False # cs) (Br lp p kp vp False (Br l z k v cz r)))"
     "unchanged_outside ?A this s s1" by (auto simp: set_addrs_plug)
  have f2: "tree_rep s1 this (plug (InL g kg vg False (Br lp p kp vp False (Br l z k v cz r)) # cs) (Br ul ua ku vu True ur))"
    using s1(2) by simp
  from set_color_rep[OF f2, of False] obtain s2 where s2: "set_color ua False s1 = Some s2"
     "tree_rep s2 this (plug (InL g kg vg False (Br lp p kp vp False (Br l z k v cz r)) # cs) (Br ul ua ku vu False ur))"
     "unchanged_outside ?A this s1 s2" by (auto simp: set_addrs_plug)
  have f3: "tree_rep s2 this (plug cs (Br (Br ul ua ku vu False ur) g kg vg False (Br lp p kp vp False (Br l z k v cz r))))"
    using s2(2) by simp
  from set_color_rep[OF f3, of True] obtain s3 where s3: "set_color g True s2 = Some s3"
     "tree_rep s3 this (plug cs (Br (Br ul ua ku vu False ur) g kg vg True (Br lp p kp vp False (Br l z k v cz r))))"
     "unchanged_outside ?A this s2 s3" by (auto simp: set_addrs_plug)
  have "insert_fix_body this z s = Some (g, s3)"
    using rep s1(1,2) s2(1,2) s3(1,2)
    by (clarsimp simp add: insert_fix_body_def rep_defs get_defs is_red_def)
  moreover have "unchanged_outside ?A this s s3"
    using s1(3) s2(3) s3(3) by (blast intro: unchanged_outside_same)
  ultimately show ?thesis using s3(2) by simp
qed


text \<open>The parent is a left child, the uncle is black, \<^verbatim>\<open>z\<close> is a left child: recolour and rotate the grandparent.\<close>

lemma insert_fix_body_outer_l:
  assumes rep: "tree_rep s this (plug (InL p kp vp True sp # InL g kg vg False u # cs) (Br l z k v cz r))"
    and ub: "\<not> color_of u"
  shows "\<exists>s'. insert_fix_body this z s = Some (z, s')
           \<and> tree_rep s' this (plug cs (Br (Br l z k v cz r) p kp vp False (Br sp g kg vg True u)))
           \<and> unchanged_outside (set (addrs (plug (InL p kp vp True sp # InL g kg vg False u # cs) (Br l z k v cz r)))) this s s'"
proof -
  let ?A = "set (addrs (plug (InL p kp vp True sp # InL g kg vg False u # cs) (Br l z k v cz r)))"
  have f1: "tree_rep s this (plug (InL g kg vg False u # cs) (Br (Br l z k v cz r) p kp vp True sp))"
    using rep by simp
  from set_color_rep[OF f1, of False] obtain s1 where s1: "set_color p False s = Some s1"
     "tree_rep s1 this (plug (InL g kg vg False u # cs) (Br (Br l z k v cz r) p kp vp False sp))"
     "unchanged_outside ?A this s s1" by (auto simp: set_addrs_plug)
  have f2: "tree_rep s1 this (plug cs (Br (Br (Br l z k v cz r) p kp vp False sp) g kg vg False u))"
    using s1(2) by simp
  from set_color_rep[OF f2, of True] obtain s2 where s2: "set_color g True s1 = Some s2"
     "tree_rep s2 this (plug cs (Br (Br (Br l z k v cz r) p kp vp False sp) g kg vg True u))"
     "unchanged_outside ?A this s1 s2" by (auto simp: set_addrs_plug)
  have f3: "tree_rep s2 this (plug cs (Br (Br (Br l z k v cz r) p kp vp False sp) g kg vg True u))"
    using s2(2) by simp
  from right_rotate_rep[OF f3] obtain s3 where s3: "right_rotate this g s2 = Some s3"
     "tree_rep s3 this (plug cs (Br (Br l z k v cz r) p kp vp False (Br sp g kg vg True u)))"
     "unchanged_outside ?A this s2 s3" by (auto simp: set_addrs_plug)
  have u: "is_red s (ptr_of u) = Some False"
    using rep ub by (auto simp: rep_defs dest: tree_at_is_red)
  have "insert_fix_body this z s = Some (z, s3)"
    using rep s1(1,2) s2(1,2) s3(1,2) u
    by (clarsimp simp add: insert_fix_body_def rep_defs get_defs is_red_def)
  moreover have "unchanged_outside ?A this s s3"
    using s1(3) s2(3) s3(3) by (blast intro: unchanged_outside_same)
  ultimately show ?thesis using s3(2) by simp
qed


text \<open>The parent is a left child, the uncle is black, \<^verbatim>\<open>z\<close> is a right child: rotate the parent first.\<close>

lemma insert_fix_body_inner_l:
  assumes rep: "tree_rep s this (plug (InR lp p kp vp True # InL g kg vg False u # cs) (Br l z k v cz r))"
    and ub: "\<not> color_of u"
  shows "\<exists>s'. insert_fix_body this z s = Some (p, s')
           \<and> tree_rep s' this (plug cs (Br (Br lp p kp vp True l) z k v False (Br r g kg vg True u)))
           \<and> unchanged_outside (set (addrs (plug (InR lp p kp vp True # InL g kg vg False u # cs) (Br l z k v cz r)))) this s s'"
proof -
  let ?A = "set (addrs (plug (InR lp p kp vp True # InL g kg vg False u # cs) (Br l z k v cz r)))"
  have f1: "tree_rep s this (plug (InL g kg vg False u # cs) (Br lp p kp vp True (Br l z k v cz r)))"
    using rep by simp
  from left_rotate_rep[OF f1] obtain s1 where s1: "left_rotate this p s = Some s1"
     "tree_rep s1 this (plug (InL g kg vg False u # cs) (Br (Br lp p kp vp True l) z k v cz r))"
     "unchanged_outside ?A this s s1" by (auto simp: set_addrs_plug)
  have f2: "tree_rep s1 this (plug (InL g kg vg False u # cs) (Br (Br lp p kp vp True l) z k v cz r))"
    using s1(2) by simp
  from set_color_rep[OF f2, of False] obtain s2 where s2: "set_color z False s1 = Some s2"
     "tree_rep s2 this (plug (InL g kg vg False u # cs) (Br (Br lp p kp vp True l) z k v False r))"
     "unchanged_outside ?A this s1 s2" by (auto simp: set_addrs_plug)
  have f3: "tree_rep s2 this (plug cs (Br (Br (Br lp p kp vp True l) z k v False r) g kg vg False u))"
    using s2(2) by simp
  from set_color_rep[OF f3, of True] obtain s3 where s3: "set_color g True s2 = Some s3"
     "tree_rep s3 this (plug cs (Br (Br (Br lp p kp vp True l) z k v False r) g kg vg True u))"
     "unchanged_outside ?A this s2 s3" by (auto simp: set_addrs_plug)
  have f4: "tree_rep s3 this (plug cs (Br (Br (Br lp p kp vp True l) z k v False r) g kg vg True u))"
    using s3(2) by simp
  from right_rotate_rep[OF f4] obtain s4 where s4: "right_rotate this g s3 = Some s4"
     "tree_rep s4 this (plug cs (Br (Br lp p kp vp True l) z k v False (Br r g kg vg True u)))"
     "unchanged_outside ?A this s3 s4" by (auto simp: set_addrs_plug)
  have u: "is_red s (ptr_of u) = Some False"
    using rep ub by (auto simp: rep_defs dest: tree_at_is_red)
  have "insert_fix_body this z s = Some (p, s4)"
    using rep s1(1,2) s2(1,2) s3(1,2) s4(1,2) u
    by (clarsimp simp add: insert_fix_body_def rep_defs get_defs is_red_def)
  moreover have "unchanged_outside ?A this s s4"
    using s1(3) s2(3) s3(3) s4(3) by (blast intro: unchanged_outside_same)
  ultimately show ?thesis using s4(2) by simp
qed


text \<open>The parent is a right child, the uncle is black, \<^verbatim>\<open>z\<close> is a right child.\<close>

lemma insert_fix_body_outer_r:
  assumes rep: "tree_rep s this (plug (InR lp p kp vp True # InR u g kg vg False # cs) (Br l z k v cz r))"
    and ub: "\<not> color_of u"
  shows "\<exists>s'. insert_fix_body this z s = Some (z, s')
           \<and> tree_rep s' this (plug cs (Br (Br u g kg vg True lp) p kp vp False (Br l z k v cz r)))
           \<and> unchanged_outside (set (addrs (plug (InR lp p kp vp True # InR u g kg vg False # cs) (Br l z k v cz r)))) this s s'"
proof -
  let ?A = "set (addrs (plug (InR lp p kp vp True # InR u g kg vg False # cs) (Br l z k v cz r)))"
  have f1: "tree_rep s this (plug (InR u g kg vg False # cs) (Br lp p kp vp True (Br l z k v cz r)))"
    using rep by simp
  from set_color_rep[OF f1, of False] obtain s1 where s1: "set_color p False s = Some s1"
     "tree_rep s1 this (plug (InR u g kg vg False # cs) (Br lp p kp vp False (Br l z k v cz r)))"
     "unchanged_outside ?A this s s1" by (auto simp: set_addrs_plug)
  have f2: "tree_rep s1 this (plug cs (Br u g kg vg False (Br lp p kp vp False (Br l z k v cz r))))"
    using s1(2) by simp
  from set_color_rep[OF f2, of True] obtain s2 where s2: "set_color g True s1 = Some s2"
     "tree_rep s2 this (plug cs (Br u g kg vg True (Br lp p kp vp False (Br l z k v cz r))))"
     "unchanged_outside ?A this s1 s2" by (auto simp: set_addrs_plug)
  have f3: "tree_rep s2 this (plug cs (Br u g kg vg True (Br lp p kp vp False (Br l z k v cz r))))"
    using s2(2) by simp
  from left_rotate_rep[OF f3] obtain s3 where s3: "left_rotate this g s2 = Some s3"
     "tree_rep s3 this (plug cs (Br (Br u g kg vg True lp) p kp vp False (Br l z k v cz r)))"
     "unchanged_outside ?A this s2 s3" by (auto simp: set_addrs_plug)
  have u: "is_red s (ptr_of u) = Some False"
    using rep ub by (auto simp: rep_defs dest: tree_at_is_red)
  have "insert_fix_body this z s = Some (z, s3)"
    using rep s1(1,2) s2(1,2) s3(1,2) u
    by (clarsimp simp add: insert_fix_body_def rep_defs get_defs is_red_def)
  moreover have "unchanged_outside ?A this s s3"
    using s1(3) s2(3) s3(3) by (blast intro: unchanged_outside_same)
  ultimately show ?thesis using s3(2) by simp
qed


text \<open>The parent is a right child, the uncle is black, \<^verbatim>\<open>z\<close> is a left child.\<close>

lemma insert_fix_body_inner_r:
  assumes rep: "tree_rep s this (plug (InL p kp vp True sp # InR u g kg vg False # cs) (Br l z k v cz r))"
    and ub: "\<not> color_of u"
  shows "\<exists>s'. insert_fix_body this z s = Some (p, s')
           \<and> tree_rep s' this (plug cs (Br (Br u g kg vg True l) z k v False (Br r p kp vp True sp)))
           \<and> unchanged_outside (set (addrs (plug (InL p kp vp True sp # InR u g kg vg False # cs) (Br l z k v cz r)))) this s s'"
proof -
  let ?A = "set (addrs (plug (InL p kp vp True sp # InR u g kg vg False # cs) (Br l z k v cz r)))"
  have f1: "tree_rep s this (plug (InR u g kg vg False # cs) (Br (Br l z k v cz r) p kp vp True sp))"
    using rep by simp
  from right_rotate_rep[OF f1] obtain s1 where s1: "right_rotate this p s = Some s1"
     "tree_rep s1 this (plug (InR u g kg vg False # cs) (Br l z k v cz (Br r p kp vp True sp)))"
     "unchanged_outside ?A this s s1" by (auto simp: set_addrs_plug)
  have f2: "tree_rep s1 this (plug (InR u g kg vg False # cs) (Br l z k v cz (Br r p kp vp True sp)))"
    using s1(2) by simp
  from set_color_rep[OF f2, of False] obtain s2 where s2: "set_color z False s1 = Some s2"
     "tree_rep s2 this (plug (InR u g kg vg False # cs) (Br l z k v False (Br r p kp vp True sp)))"
     "unchanged_outside ?A this s1 s2" by (auto simp: set_addrs_plug)
  have f3: "tree_rep s2 this (plug cs (Br u g kg vg False (Br l z k v False (Br r p kp vp True sp))))"
    using s2(2) by simp
  from set_color_rep[OF f3, of True] obtain s3 where s3: "set_color g True s2 = Some s3"
     "tree_rep s3 this (plug cs (Br u g kg vg True (Br l z k v False (Br r p kp vp True sp))))"
     "unchanged_outside ?A this s2 s3" by (auto simp: set_addrs_plug)
  have f4: "tree_rep s3 this (plug cs (Br u g kg vg True (Br l z k v False (Br r p kp vp True sp))))"
    using s3(2) by simp
  from left_rotate_rep[OF f4] obtain s4 where s4: "left_rotate this g s3 = Some s4"
     "tree_rep s4 this (plug cs (Br (Br u g kg vg True l) z k v False (Br r p kp vp True sp)))"
     "unchanged_outside ?A this s3 s4" by (auto simp: set_addrs_plug)
  have u: "is_red s (ptr_of u) = Some False"
    using rep ub by (auto simp: rep_defs dest: tree_at_is_red)
  have "insert_fix_body this z s = Some (p, s4)"
    using rep s1(1,2) s2(1,2) s3(1,2) s4(1,2) u
    by (clarsimp simp add: insert_fix_body_def rep_defs get_defs is_red_def)
  moreover have "unchanged_outside ?A this s s4"
    using s1(3) s2(3) s3(3) s4(3) by (blast intro: unchanged_outside_same)
  ultimately show ?thesis using s4(2) by simp
qed

section \<open>The invariants along a path\<close>

lemma invh_plug: "invh (plug cs t) = (invh t \<and> invh_ctx cs (bh t))"
proof (induction cs arbitrary: t)
  case Nil
  show ?case by simp
next
  case (Cons f cs)
  show ?case
  proof (cases f)
    case (InL a k v c r)
    show ?thesis unfolding InL
      by (simp add: Cons.IH) (intro conjI impI iffI; clarsimp)
  next
    case (InR l a k v c)
    show ?thesis unfolding InR
      by (simp add: Cons.IH) (intro conjI impI iffI; clarsimp)
  qed
qed

lemma invc_plug: "invc (plug cs t) = (invc t \<and> invc_ctx cs (color_of t))"
proof (induction cs arbitrary: t)
  case Nil
  show ?case by simp
next
  case (Cons f cs)
  then show ?case by (cases f) auto
qed

lemma color_of_fill [simp]: "color_of (fill f t) = fcolor f"
  by (cases f) auto

lemma color_of_plug:
  "color_of (plug cs t) = (if cs = [] then color_of t else fcolor (last cs))"
  by (induction cs arbitrary: t) auto

lemma blacken_simps [simp]:
  "color_of (blacken t) = False"
  "invh (blacken t) = invh t"
  "inorder (blacken t) = inorder t"
  "ptr_of (blacken t) = ptr_of t"
  "addrs (blacken t) = addrs t"
  by (cases t; simp add: addrs_def)+

lemma invc_blacken: "invc t \<Longrightarrow> invc (blacken t)"
  by (cases t) auto

lemma invc_ctx_black_parent:
  "\<not> fcolor f \<Longrightarrow> invc_ctx (f # cs) hc = invc_ctx (f # cs) False"
  by (cases f) auto

lemma blacken_root_rep:
  assumes "tree_rep s this T"
  shows "\<exists>s'. (get_root s this \<bind> (\<lambda>r. set_color_if r False s)) = Some s'
            \<and> tree_rep s' this (blacken T)
            \<and> unchanged_outside (set (addrs T)) this s s'"
  using assms
  by (cases T) (clarsimp simp add: tree_rep_def rw_defs unchanged_outside_def)+

lemma rep_get_parent:
  "tree_rep s this (plug cs t) \<Longrightarrow> ptr_of t = Some z \<Longrightarrow> get_parent s z = Some (cpar cs)"
  by (cases t) (auto simp: rep_defs get_defs)

lemma rep_is_red_parent:
  "tree_rep s this (plug (f # cs) t) \<Longrightarrow> is_red s (Some (faddr f)) = Some (fcolor f)"
  by (cases f) (auto simp: rep_defs get_defs is_red_def)

section \<open>insert_fix restores the invariants\<close>

lemma insert_fix_body_step:
  assumes rep: "tree_rep s this (plug (f1 # cs1) t)"
    and z: "ptr_of t = Some z"
    and inv: "ins_inv (f1 # cs1) t"
    and red: "fcolor f1"
  shows "\<exists>z' s' cs' t'. insert_fix_body this z s = Some (z', s')
           \<and> tree_rep s' this (plug cs' t') \<and> ptr_of t' = Some z' \<and> ins_inv cs' t'
           \<and> length cs' < length (f1 # cs1)
           \<and> inorder (plug cs' t') = inorder (plug (f1 # cs1) t)
           \<and> unchanged_outside (set (addrs (plug (f1 # cs1) t))) this s s'"
proof -
  from z inv obtain l k v r where t: "t = Br l z k v True r"
    by (cases t) (auto simp: ins_inv_def)
  from inv red obtain f2 cs2 where cs1: "cs1 = f2 # cs2"
    by (cases cs1) (auto simp: ins_inv_def)
  have black2: "\<not> fcolor f2"
    using inv red cs1 by (cases f1; cases f2) (auto simp: ins_inv_def)
  show ?thesis
  proof (cases f1)
    case f1: (InL p kp vp cp sp)
    show ?thesis
    proof (cases f2)
      case f2: (InL g kg vg cg u)
      show ?thesis
      proof (cases "color_of u")
        case True
        then obtain ul ua ku vu ur where u: "u = Br ul ua ku vu True ur" by (cases u) auto
        from insert_fix_body_red_ll[of s this p kp vp sp g kg vg ul ua ku vu ur cs2 l z k v True r]
        obtain s' where "insert_fix_body this z s = Some (g, s')"
          "tree_rep s' this (plug cs2 (Br (Br (Br l z k v True r) p kp vp False sp) g kg vg True (Br ul ua ku vu False ur)))"
          "unchanged_outside (set (addrs (plug (f1 # cs1) t))) this s s'"
          using rep red black2 unfolding t cs1 f1 f2 u by auto
        then show ?thesis using inv red black2 unfolding t cs1 f1 f2 u
          apply (intro exI[of _ g] exI[of _ s'] exI[of _ cs2] exI[of _ "Br (Br (Br l z k v True r) p kp vp False sp) g kg vg True (Br ul ua ku vu False ur)"])
          apply (auto simp: ins_inv_def inorder_plug)
          done
      next
        case False
        from insert_fix_body_outer_l[of s this p kp vp sp g kg vg u cs2 l z k v True r]
        obtain s' where "insert_fix_body this z s = Some (z, s')"
          "tree_rep s' this (plug cs2 (Br (Br l z k v True r) p kp vp False (Br sp g kg vg True u)))"
          "unchanged_outside (set (addrs (plug (f1 # cs1) t))) this s s'"
          using rep red black2 False unfolding t cs1 f1 f2 by auto
        then show ?thesis using inv red black2 False unfolding t cs1 f1 f2
          apply (intro exI[of _ z] exI[of _ s'] exI[of _ "InL p kp vp False (Br sp g kg vg True u) # cs2"] exI[of _ "Br l z k v True r"])
          apply (auto simp: ins_inv_def inorder_plug)
          done
      qed
    next
      case f2: (InR u g kg vg cg)
      show ?thesis
      proof (cases "color_of u")
        case True
        then obtain ul ua ku vu ur where u: "u = Br ul ua ku vu True ur" by (cases u) auto
        from insert_fix_body_red_rl[of s this p kp vp sp ul ua ku vu ur g kg vg cs2 l z k v True r]
        obtain s' where "insert_fix_body this z s = Some (g, s')"
          "tree_rep s' this (plug cs2 (Br (Br ul ua ku vu False ur) g kg vg True (Br (Br l z k v True r) p kp vp False sp)))"
          "unchanged_outside (set (addrs (plug (f1 # cs1) t))) this s s'"
          using rep red black2 unfolding t cs1 f1 f2 u by auto
        then show ?thesis using inv red black2 unfolding t cs1 f1 f2 u
          apply (intro exI[of _ g] exI[of _ s'] exI[of _ cs2] exI[of _ "Br (Br ul ua ku vu False ur) g kg vg True (Br (Br l z k v True r) p kp vp False sp)"])
          apply (auto simp: ins_inv_def inorder_plug)
          done
      next
        case False
        from insert_fix_body_inner_r[of s this p kp vp sp u g kg vg cs2 l z k v True r]
        obtain s' where "insert_fix_body this z s = Some (p, s')"
          "tree_rep s' this (plug cs2 (Br (Br u g kg vg True l) z k v False (Br r p kp vp True sp)))"
          "unchanged_outside (set (addrs (plug (f1 # cs1) t))) this s s'"
          using rep red black2 False unfolding t cs1 f1 f2 by auto
        then show ?thesis using inv red black2 False unfolding t cs1 f1 f2
          apply (intro exI[of _ p] exI[of _ s'] exI[of _ "InR (Br u g kg vg True l) z k v False # cs2"] exI[of _ "Br r p kp vp True sp"])
          apply (auto simp: ins_inv_def inorder_plug)
          done
      qed
    qed
  next
    case f1: (InR lp p kp vp cp)
    show ?thesis
    proof (cases f2)
      case f2: (InL g kg vg cg u)
      show ?thesis
      proof (cases "color_of u")
        case True
        then obtain ul ua ku vu ur where u: "u = Br ul ua ku vu True ur" by (cases u) auto
        from insert_fix_body_red_lr[of s this lp p kp vp g kg vg ul ua ku vu ur cs2 l z k v True r]
        obtain s' where "insert_fix_body this z s = Some (g, s')"
          "tree_rep s' this (plug cs2 (Br (Br lp p kp vp False (Br l z k v True r)) g kg vg True (Br ul ua ku vu False ur)))"
          "unchanged_outside (set (addrs (plug (f1 # cs1) t))) this s s'"
          using rep red black2 unfolding t cs1 f1 f2 u by auto
        then show ?thesis using inv red black2 unfolding t cs1 f1 f2 u
          apply (intro exI[of _ g] exI[of _ s'] exI[of _ cs2] exI[of _ "Br (Br lp p kp vp False (Br l z k v True r)) g kg vg True (Br ul ua ku vu False ur)"])
          apply (auto simp: ins_inv_def inorder_plug)
          done
      next
        case False
        from insert_fix_body_inner_l[of s this lp p kp vp g kg vg u cs2 l z k v True r]
        obtain s' where "insert_fix_body this z s = Some (p, s')"
          "tree_rep s' this (plug cs2 (Br (Br lp p kp vp True l) z k v False (Br r g kg vg True u)))"
          "unchanged_outside (set (addrs (plug (f1 # cs1) t))) this s s'"
          using rep red black2 False unfolding t cs1 f1 f2 by auto
        then show ?thesis using inv red black2 False unfolding t cs1 f1 f2
          apply (intro exI[of _ p] exI[of _ s'] exI[of _ "InL z k v False (Br r g kg vg True u) # cs2"] exI[of _ "Br lp p kp vp True l"])
          apply (auto simp: ins_inv_def inorder_plug)
          done
      qed
    next
      case f2: (InR u g kg vg cg)
      show ?thesis
      proof (cases "color_of u")
        case True
        then obtain ul ua ku vu ur where u: "u = Br ul ua ku vu True ur" by (cases u) auto
        from insert_fix_body_red_rr[of s this lp p kp vp ul ua ku vu ur g kg vg cs2 l z k v True r]
        obtain s' where "insert_fix_body this z s = Some (g, s')"
          "tree_rep s' this (plug cs2 (Br (Br ul ua ku vu False ur) g kg vg True (Br lp p kp vp False (Br l z k v True r))))"
          "unchanged_outside (set (addrs (plug (f1 # cs1) t))) this s s'"
          using rep red black2 unfolding t cs1 f1 f2 u by auto
        then show ?thesis using inv red black2 unfolding t cs1 f1 f2 u
          apply (intro exI[of _ g] exI[of _ s'] exI[of _ cs2] exI[of _ "Br (Br ul ua ku vu False ur) g kg vg True (Br lp p kp vp False (Br l z k v True r))"])
          apply (auto simp: ins_inv_def inorder_plug)
          done
      next
        case False
        from insert_fix_body_outer_r[of s this lp p kp vp u g kg vg cs2 l z k v True r]
        obtain s' where "insert_fix_body this z s = Some (z, s')"
          "tree_rep s' this (plug cs2 (Br (Br u g kg vg True lp) p kp vp False (Br l z k v True r)))"
          "unchanged_outside (set (addrs (plug (f1 # cs1) t))) this s s'"
          using rep red black2 False unfolding t cs1 f1 f2 by auto
        then show ?thesis using inv red black2 False unfolding t cs1 f1 f2
          apply (intro exI[of _ z] exI[of _ s'] exI[of _ "InR (Br u g kg vg True lp) p kp vp False # cs2"] exI[of _ "Br l z k v True r"])
          apply (auto simp: ins_inv_def inorder_plug)
          done
      qed
    qed
  qed
qed

lemma insert_fix_exit:
  assumes rep: "tree_rep s this (plug cs t)"
    and z: "ptr_of t = Some z"
    and black: "cs = [] \<or> \<not> fcolor (hd cs)"
  shows "insert_fix this z s = (get_root s this \<bind> (\<lambda>r. set_color_if r False s))"
proof -
  have p: "get_parent s z = Some (cpar cs)"
    using rep z by (rule rep_get_parent)
  have "is_red s (cpar cs) = Some False"
  proof (cases cs)
    case Nil
    then show ?thesis by (simp add: is_red_def)
  next
    case (Cons f cs')
    with black rep_is_red_parent[of s this f cs' t] rep show ?thesis by simp
  qed
  with p show ?thesis
    by (subst insert_fix.simps) simp
qed

lemma insert_fix_rep:
  assumes "tree_rep s this (plug cs t)" and "ptr_of t = Some z" and "ins_inv cs t"
  shows "\<exists>s' T. insert_fix this z s = Some s' \<and> tree_rep s' this T \<and> rbt T
           \<and> inorder T = inorder (plug cs t)
           \<and> unchanged_outside (set (addrs (plug cs t))) this s s'"
  using assms
proof (induction "length cs" arbitrary: cs t z s rule: less_induct)
  case less
  note rep = less.prems(1) and z = less.prems(2) and inv = less.prems(3)
  show ?case
  proof (cases "cs = [] \<or> \<not> fcolor (hd cs)")
    case True
    from blacken_root_rep[OF rep] obtain s' where s':
      "(get_root s this \<bind> (\<lambda>r. set_color_if r False s)) = Some s'"
      "tree_rep s' this (blacken (plug cs t))"
      "unchanged_outside (set (addrs (plug cs t))) this s s'" by blast
    have "invc_ctx cs True"
    proof (cases cs)
      case Nil
      then show ?thesis by simp
    next
      case (Cons f cs')
      with True have "\<not> fcolor f" by simp
      from invc_ctx_black_parent[OF this, of cs' True] inv Cons show ?thesis
        by (simp add: ins_inv_def)
    qed
    with inv have "invc (plug cs t)"
      unfolding invc_plug by (simp add: ins_inv_def)
    moreover have "invh (plug cs t)"
      using inv unfolding invh_plug by (simp add: ins_inv_def)
    ultimately have "rbt (blacken (plug cs t))"
      by (simp add: rbt_def invc_blacken)
    with s' insert_fix_exit[OF rep z True] show ?thesis
      by (intro exI[of _ s'] exI[of _ "blacken (plug cs t)"]) simp
  next
    case False
    then obtain f1 cs1 where cs: "cs = f1 # cs1" and red: "fcolor f1"
      by (cases cs) auto
    from insert_fix_body_step[OF rep[unfolded cs] z inv[unfolded cs] red]
    obtain z' s1 cs' t' where b: "insert_fix_body this z s = Some (z', s1)"
      "tree_rep s1 this (plug cs' t')" "ptr_of t' = Some z'" "ins_inv cs' t'"
      "length cs' < length cs"
      "inorder (plug cs' t') = inorder (plug cs t)"
      "unchanged_outside (set (addrs (plug cs t))) this s s1"
      unfolding cs by blast
    from less.hyps[OF b(5) b(2) b(3) b(4)]
    obtain s' T where r: "insert_fix this z' s1 = Some s'" "tree_rep s' this T" "rbt T"
      "inorder T = inorder (plug cs' t')"
      "unchanged_outside (set (addrs (plug cs' t'))) this s1 s'" by blast
    have same: "set (addrs (plug cs' t')) = set (addrs (plug cs t))"
      using b(6) by (simp add: addrs_def)
    have p: "get_parent s z = Some (cpar cs)"
      using rep z by (rule rep_get_parent)
    have "is_red s (cpar cs) = Some True"
      using rep_is_red_parent[of s this f1 cs1 t] rep red cs by simp
    with p b(1) r(1) have "insert_fix this z s = Some s'"
      by (subst insert_fix.simps) simp
    moreover have "unchanged_outside (set (addrs (plug cs t))) this s s'"
      using b(7) r(5) unfolding same by (rule unchanged_outside_same)
    ultimately show ?thesis using r(2,3,4) b(6)
      by (intro exI[of _ s'] exI[of _ T]) simp
  qed
qed

section \<open>Descent and insertion\<close>

lemma find_loop_rep:
  "tree_at (nodes s) par t \<Longrightarrow> find_loop cmp x s (ptr_of t) = Some (tfind cmp x t)"
proof (induction t arbitrary: par)
  case Lf
  show ?case by (subst find_loop.simps) simp
next
  case (Br l a k v c r)
  from Br.prems have n: "nodes s a = Some \<lparr>data_first = k, data_second = v, color = c,
      left = ptr_of l, right = ptr_of r, parent = par\<rparr>"
    and l: "tree_at (nodes s) (Some a) l" and r: "tree_at (nodes s) (Some a) r" by simp_all
  show ?case
    by (subst find_loop.simps) (simp add: n Br.IH(1)[OF l] Br.IH(2)[OF r])
qed

lemma find_node_rep:
  "tree_rep s this t \<Longrightarrow> find_node cmp this x s = Some (tfind cmp x t)"
  by (auto simp: find_node_def tree_rep_def find_loop_rep)

lemma descend_rep:
  "tree_at (nodes s) (cpar cs) t \<Longrightarrow>
   descend cmp x s (ptr_of t) (cpar cs) =
     Some (case tfind cmp x t of Some a \<Rightarrow> (Some a, Some a)
           | None \<Rightarrow> (None, cpar (tpath cmp x t cs)))"
proof (induction t arbitrary: cs)
  case Lf
  show ?case by (subst descend.simps) simp
next
  case (Br l a k v c r)
  from Br.prems have n: "nodes s a = Some \<lparr>data_first = k, data_second = v, color = c,
      left = ptr_of l, right = ptr_of r, parent = cpar cs\<rparr>"
    and l: "tree_at (nodes s) (cpar (InL a k v c r # cs)) l"
    and r: "tree_at (nodes s) (cpar (InR l a k v c # cs)) r" by simp_all
  show ?case
    using Br.IH(1)[OF l] Br.IH(2)[OF r]
    by (subst descend.simps) (simp add: n split: option.split)
qed

lemma tpath_plug: "tfind cmp x t = None \<Longrightarrow> plug (tpath cmp x t cs) Lf = plug cs t"
  by (induction t arbitrary: cs) (auto split: if_splits)

lemma tpath_dir:
  "(\<forall>f \<in> set cs. frame_dir cmp x f) \<Longrightarrow> (\<forall>f \<in> set (tpath cmp x t cs). frame_dir cmp x f)"
proof (induction t arbitrary: cs)
  case Lf
  then show ?case by simp
next
  case (Br l a k v c r)
  show ?case
  proof (cases "cmp x k")
    case True
    have "\<forall>f \<in> set (InL a k v c r # cs). frame_dir cmp x f"
      using Br.prems True by simp
    from Br.IH(1)[OF this] True show ?thesis by simp
  next
    case False
    have "\<forall>f \<in> set (InR l a k v c # cs). frame_dir cmp x f"
      using Br.prems False by simp
    from Br.IH(2)[OF this] False show ?thesis by simp
  qed
qed

lemma attach_new_rep:
  assumes rep: "tree_rep s this (plug cs Lf)"
    and fresh: "next_addr s \<notin> set (addrs (plug cs Lf))"
    and dir: "cs \<noteq> [] \<longrightarrow> frame_dir cmp x (hd cs)"
    and cnt: "get_count s this = Some n"
  shows "\<exists>s'. attach_new cmp this x v (cpar cs) s = Some (next_addr s, s')
           \<and> tree_rep s' this (plug cs (Br Lf (next_addr s) x v True Lf))
           \<and> others_unchanged (insert (next_addr s) (set (addrs (plug cs Lf)))) this s s'
           \<and> get_count s' this = Some (Suc n) \<and> next_addr s' = Suc (next_addr s)"
proof (cases cs)
  case Nil
  with assms show ?thesis
    by (clarsimp simp add: attach_new_def new_node_def rep_defs rw_defs others_unchanged_def)
next
  case (Cons f cs')
  with assms show ?thesis
    by (cases f) (clarsimp simp add: attach_new_def new_node_def rep_defs rw_defs others_unchanged_def)+
qed

lemma others_unchanged_trans:
  "others_unchanged A this s s1 \<Longrightarrow> unchanged_outside B this s1 s2 \<Longrightarrow> B \<subseteq> A
   \<Longrightarrow> others_unchanged A this s s2"
  by (auto simp: others_unchanged_def unchanged_outside_def)

lemma link_new_rep:
  assumes rep: "tree_rep s this (plug cs Lf)"
    and rb: "rbt (plug cs Lf)"
    and fresh: "next_addr s \<notin> set (addrs (plug cs Lf))"
    and dir: "cs \<noteq> [] \<longrightarrow> frame_dir cmp x (hd cs)"
    and cnt: "get_count s this = Some n"
  shows "\<exists>s' T. link_new cmp this x v (cpar cs) s = Some (next_addr s, s')
           \<and> tree_rep s' this T \<and> rbt T
           \<and> inorder T = before cs @ (next_addr s, x, v) # after cs
           \<and> others_unchanged (insert (next_addr s) (set (addrs (plug cs Lf)))) this s s'
           \<and> get_count s' this = Some (Suc n) \<and> next_addr s' = Suc (next_addr s)"
proof -
  let ?z = "next_addr s"
  let ?t = "Br Lf ?z x v True Lf"
  from attach_new_rep[OF rep fresh dir cnt, of v] obtain s1 where
    a: "attach_new cmp this x v (cpar cs) s = Some (?z, s1)"
       "tree_rep s1 this (plug cs ?t)"
       "others_unchanged (insert ?z (set (addrs (plug cs Lf)))) this s s1"
       "get_count s1 this = Some (Suc n)" "next_addr s1 = Suc ?z" by blast
  have "invc (plug cs Lf)" "invh (plug cs Lf)" "\<not> color_of (plug cs Lf)"
    using rb by (simp_all add: rbt_def)
  then have inv: "ins_inv cs ?t"
    unfolding invc_plug invh_plug color_of_plug by (auto simp: ins_inv_def)
  from insert_fix_rep[OF a(2) _ inv, of ?z] obtain s' T where
    f: "insert_fix this ?z s1 = Some s'" "tree_rep s' this T" "rbt T"
       "inorder T = inorder (plug cs ?t)"
       "unchanged_outside (set (addrs (plug cs ?t))) this s1 s'" by auto
  have "link_new cmp this x v (cpar cs) s = Some (?z, s')"
    using a(1) f(1) by (simp add: link_new_def)
  moreover have "others_unchanged (insert ?z (set (addrs (plug cs Lf)))) this s s'"
    using a(3) f(5) by (rule others_unchanged_trans) (auto simp: set_addrs_plug)
  moreover have "get_count s' this = Some (Suc n)" "next_addr s' = Suc ?z"
    using a(4,5) f(5) by (simp_all add: unchanged_outside_def)
  ultimately show ?thesis using f(2,3,4)
    by (intro exI[of _ s'] exI[of _ T]) (simp add: inorder_plug)
qed

section \<open>Search trees\<close>

lemma keys_simps [simp]:
  "keys Lf = []"
  "keys (Br l a k v c r) = keys l @ k # keys r"
  by (simp_all add: keys_def)

lemma has_key_simps [simp]:
  "has_key cmp x Lf = False"
  "has_key cmp x (Br l a k v c r) = (has_key cmp x l \<or> eq_key cmp x k \<or> has_key cmp x r)"
  by (auto simp: has_key_def)

lemma swo_trans: "strict_weak_order cmp \<Longrightarrow> cmp x y \<Longrightarrow> cmp y z \<Longrightarrow> cmp x z"
  unfolding strict_weak_order_def by blast

lemma swo_irrefl: "strict_weak_order cmp \<Longrightarrow> \<not> cmp x x"
  unfolding strict_weak_order_def by blast

lemma bst_Br:
  "bst cmp (Br l a k v c r) =
     (bst cmp l \<and> bst cmp r \<and> (\<forall>x \<in> set (keys l). cmp x k) \<and> (\<forall>y \<in> set (keys r). cmp k y)
      \<and> (\<forall>x \<in> set (keys l). \<forall>y \<in> set (keys r). cmp x y))"
  by (auto simp: bst_def sorted_wrt_append)

lemma bst_Lf [simp]: "bst cmp Lf"
  by (simp add: bst_def)

lemma tfind_None_iff:
  assumes swo: "strict_weak_order cmp"
  shows "bst cmp t \<Longrightarrow> (tfind cmp x t = None) = (\<not> has_key cmp x t)"
proof (induction t)
  case Lf
  show ?case by simp
next
  case (Br l a k v c r)
  from Br.prems have bl: "bst cmp l" and br: "bst cmp r"
    and lk: "\<forall>y \<in> set (keys l). cmp y k" and kr: "\<forall>y \<in> set (keys r). cmp k y"
    by (simp_all add: bst_Br)
  show ?case
  proof (cases "cmp x k")
    case True
    have "\<not> has_key cmp x r"
      using kr True swo_trans[OF swo] by (fastforce simp: has_key_def eq_key_def)
    with True Br.IH(1)[OF bl] show ?thesis by (simp add: eq_key_def)
  next
    case False
    show ?thesis
    proof (cases "cmp k x")
      case True
      have "\<not> has_key cmp x l"
        using lk True swo_trans[OF swo] by (fastforce simp: has_key_def eq_key_def)
      with True False Br.IH(2)[OF br] show ?thesis by (simp add: eq_key_def)
    next
      case False
      with \<open>\<not> cmp x k\<close> show ?thesis by (simp add: eq_key_def)
    qed
  qed
qed

lemma tfind_Some_mem:
  "tfind cmp x t = Some a \<Longrightarrow> \<exists>k v. (a, k, v) \<in> set (inorder t) \<and> eq_key cmp x k"
  by (induction t) (auto simp: eq_key_def split: if_splits)

lemma tfind_mem:
  assumes swo: "strict_weak_order cmp"
  shows "bst cmp t \<Longrightarrow> (a, k, v) \<in> set (inorder t) \<Longrightarrow> eq_key cmp x k
         \<Longrightarrow> tfind cmp x t = Some a"
proof (induction t)
  case Lf
  then show ?case by simp
next
  case (Br l b kb vb c r)
  from Br.prems(1) have bl: "bst cmp l" and br: "bst cmp r"
    and lk: "\<forall>y \<in> set (keys l). cmp y kb" and kr: "\<forall>y \<in> set (keys r). cmp kb y"
    by (simp_all add: bst_Br)
  consider (l) "(a, k, v) \<in> set (inorder l)" | (m) "a = b" "k = kb" | (r) "(a, k, v) \<in> set (inorder r)"
    using Br.prems(2) by auto
  then show ?case
  proof cases
    case l
    then have "k \<in> set (keys l)" by (force simp: keys_def)
    with lk have "cmp k kb" by simp
    have "cmp x kb"
    proof (rule ccontr)
      assume n: "\<not> cmp x kb"
      have "eq_key cmp x kb \<or> cmp kb x" using n by (auto simp: eq_key_def)
      then show False
      proof
        assume "eq_key cmp x kb"
        with Br.prems(3) swo have "eq_key cmp k kb"
          unfolding strict_weak_order_def eq_key_def by blast
        with \<open>cmp k kb\<close> show False by (simp add: eq_key_def)
      next
        assume "cmp kb x"
        with \<open>cmp k kb\<close> swo_trans[OF swo] have "cmp k x" by blast
        with Br.prems(3) show False by (simp add: eq_key_def)
      qed
    qed
    with Br.IH(1)[OF bl l Br.prems(3)] show ?thesis by simp
  next
    case m
    with Br.prems(3) show ?thesis by (simp add: eq_key_def)
  next
    case r
    then have "k \<in> set (keys r)" by (force simp: keys_def)
    with kr have "cmp kb k" by simp
    have nx: "\<not> cmp x kb"
    proof
      assume "cmp x kb"
      with \<open>cmp kb k\<close> swo_trans[OF swo] have "cmp x k" by blast
      with Br.prems(3) show False by (simp add: eq_key_def)
    qed
    have "cmp kb x"
    proof (rule ccontr)
      assume "\<not> cmp kb x"
      with nx have "eq_key cmp kb x" by (simp add: eq_key_def)
      with Br.prems(3) swo have "eq_key cmp kb k"
        unfolding strict_weak_order_def by blast
      with \<open>cmp kb k\<close> show False by (simp add: eq_key_def)
    qed
    with nx Br.IH(2)[OF br r Br.prems(3)] show ?thesis by simp
  qed
qed

text \<open>The bounds a descent path puts on the key it was followed for.\<close>

lemma tpath_bounds:
  assumes swo: "strict_weak_order cmp"
  shows "sorted_wrt cmp (map (\<lambda>e. fst (snd e)) (before cs @ inorder t @ after cs))
     \<Longrightarrow> tfind cmp x t = None
     \<Longrightarrow> (\<forall>e \<in> set (before cs). cmp (fst (snd e)) x)
     \<Longrightarrow> (\<forall>e \<in> set (after cs). cmp x (fst (snd e)))
     \<Longrightarrow> (\<forall>e \<in> set (before (tpath cmp x t cs)). cmp (fst (snd e)) x)
        \<and> (\<forall>e \<in> set (after (tpath cmp x t cs)). cmp x (fst (snd e)))"
proof (induction t arbitrary: cs)
  case Lf
  then show ?case by simp
next
  case (Br l a k v c r)
  note tr = swo_trans[OF swo]
  show ?case
  proof (cases "cmp x k")
    case True
    have 1: "sorted_wrt cmp (map (\<lambda>e. fst (snd e))
        (before (InL a k v c r # cs) @ inorder l @ after (InL a k v c r # cs)))"
      using Br.prems(1) by simp
    have 2: "tfind cmp x l = None" using Br.prems(2) True by simp
    have 3: "\<forall>e \<in> set (before (InL a k v c r # cs)). cmp (fst (snd e)) x"
      using Br.prems(3) by simp
    have "\<forall>e \<in> set (inorder r). cmp k (fst (snd e))"
      using Br.prems(1) by (auto simp: sorted_wrt_append)
    with True tr have "\<forall>e \<in> set (inorder r). cmp x (fst (snd e))" by blast
    with True Br.prems(4) have 4: "\<forall>e \<in> set (after (InL a k v c r # cs)). cmp x (fst (snd e))"
      by auto
    from Br.IH(1)[OF 1 2 3 4] True show ?thesis by simp
  next
    case False
    with Br.prems(2) have kx: "cmp k x" by (simp split: if_splits)
    have 1: "sorted_wrt cmp (map (\<lambda>e. fst (snd e))
        (before (InR l a k v c # cs) @ inorder r @ after (InR l a k v c # cs)))"
      using Br.prems(1) by simp
    have 2: "tfind cmp x r = None" using Br.prems(2) False kx by simp
    have "\<forall>e \<in> set (inorder l). cmp (fst (snd e)) k"
      using Br.prems(1) by (auto simp: sorted_wrt_append)
    with kx tr have "\<forall>e \<in> set (inorder l). cmp (fst (snd e)) x" by blast
    with kx Br.prems(3) have 3: "\<forall>e \<in> set (before (InR l a k v c # cs)). cmp (fst (snd e)) x"
      by auto
    have 4: "\<forall>e \<in> set (after (InR l a k v c # cs)). cmp x (fst (snd e))"
      using Br.prems(4) by simp
    from Br.IH(2)[OF 1 2 3 4] False show ?thesis by simp
  qed
qed

lemma bst_insert:
  assumes swo: "strict_weak_order cmp" and b: "bst cmp t" and n: "tfind cmp x t = None"
  shows "sorted_wrt cmp (map (\<lambda>e. fst (snd e))
           (before (tpath cmp x t []) @ (z, x, v) # after (tpath cmp x t [])))"
proof -
  let ?cs = "tpath cmp x t []"
  have "inorder t = before ?cs @ after ?cs"
    using tpath_plug[OF n, of "[]"] inorder_plug[of ?cs Lf] by simp
  with b have s: "sorted_wrt cmp (map (\<lambda>e. fst (snd e)) (before ?cs @ after ?cs))"
    by (simp add: bst_def keys_def)
  have "sorted_wrt cmp (map (\<lambda>e. fst (snd e)) (before [] @ inorder t @ after []))"
    using b by (simp add: bst_def keys_def)
  from tpath_bounds[OF swo this n] have
    "\<forall>e \<in> set (before ?cs). cmp (fst (snd e)) x" "\<forall>e \<in> set (after ?cs). cmp x (fst (snd e))"
    by simp_all
  with s show ?thesis by (auto simp: sorted_wrt_append)
qed

section \<open>insert and index access\<close>

lemma descend_root:
  assumes "tree_rep s this t"
  shows "descend cmp x s (ptr_of t) None =
     Some (case tfind cmp x t of Some a \<Rightarrow> (Some a, Some a)
           | None \<Rightarrow> (None, cpar (tpath cmp x t [])))"
  using descend_rep[of s "[]" t cmp x] assms by (simp add: tree_rep_def)

lemma length_inorder_addrs: "length (addrs t) = length (inorder t)"
  by (simp add: addrs_def)

lemma link_new_wf:
  assumes wf: "map_wf s this t" and n: "tfind cmp x t = None"
  shows "\<exists>s' t'. link_new cmp this x v (cpar (tpath cmp x t [])) s = Some (next_addr s, s')
           \<and> map_wf s' this t'
           \<and> inorder t' = before (tpath cmp x t []) @ (next_addr s, x, v) # after (tpath cmp x t [])
           \<and> others_unchanged (insert (next_addr s) (set (addrs t))) this s s'
           \<and> next_addr s' = Suc (next_addr s)"
proof -
  let ?cs = "tpath cmp x t []"
  have p: "plug ?cs Lf = t" using tpath_plug[OF n, of "[]"] by simp
  have io: "inorder t = before ?cs @ after ?cs"
    using inorder_plug[of ?cs Lf] p by simp
  have fresh: "next_addr s \<notin> set (addrs (plug ?cs Lf))"
    using wf unfolding p by (auto simp: map_wf_def)
  have dir: "?cs \<noteq> [] \<longrightarrow> frame_dir cmp x (hd ?cs)"
    using tpath_dir[of "[]" cmp x t] by (cases ?cs) auto
  from wf have rep: "tree_rep s this (plug ?cs Lf)" and rb: "rbt (plug ?cs Lf)"
    and cnt: "get_count s this = Some (length (inorder t))"
    unfolding p by (simp_all add: map_wf_def)
  from link_new_rep[OF rep rb fresh dir cnt, of v] obtain s' T where
    l: "link_new cmp this x v (cpar ?cs) s = Some (next_addr s, s')"
       "tree_rep s' this T" "rbt T"
       "inorder T = before ?cs @ (next_addr s, x, v) # after ?cs"
       "others_unchanged (insert (next_addr s) (set (addrs (plug ?cs Lf)))) this s s'"
       "get_count s' this = Some (Suc (length (inorder t)))" "next_addr s' = Suc (next_addr s)"
    by blast
  have "set (addrs T) = insert (next_addr s) (set (addrs t))"
    using l(4) io by (auto simp: addrs_def)
  with wf l(7) have "\<forall>a \<in> set (addrs T). a < next_addr s'"
    by (auto simp: map_wf_def)
  moreover have "length (inorder T) = Suc (length (inorder t))"
    using l(4) io by simp
  ultimately have "map_wf s' this T"
    using l(2,3,6) by (simp add: map_wf_def)
  with l(1,4,5,7) show ?thesis unfolding p by blast
qed

lemma map_insert_existing:
  assumes "tree_rep s this t" and "tfind cmp x t = Some a"
  shows "map_insert cmp this (x, v) s = Some ((\<lparr>owner = Some this, cur = Some a\<rparr>, False), s)"
  using assms descend_root[OF assms(1), of cmp x]
  by (simp add: map_insert_def tree_rep_def)

lemma map_insert_new:
  assumes wf: "map_wf s this t" and n: "tfind cmp x t = None"
  shows "\<exists>s' t'. map_insert cmp this (x, v) s
              = Some ((\<lparr>owner = Some this, cur = Some (next_addr s)\<rparr>, True), s')
           \<and> map_wf s' this t'
           \<and> inorder t' = before (tpath cmp x t []) @ (next_addr s, x, v) # after (tpath cmp x t [])
           \<and> others_unchanged (insert (next_addr s) (set (addrs t))) this s s'
           \<and> next_addr s' = Suc (next_addr s)"
proof -
  from wf have rep: "tree_rep s this t" by (simp add: map_wf_def)
  from link_new_wf[OF wf n, of v] obtain s' t' where
    l: "link_new cmp this x v (cpar (tpath cmp x t [])) s = Some (next_addr s, s')"
       "map_wf s' this t'"
       "inorder t' = before (tpath cmp x t []) @ (next_addr s, x, v) # after (tpath cmp x t [])"
       "others_unchanged (insert (next_addr s) (set (addrs t))) this s s'"
       "next_addr s' = Suc (next_addr s)" by blast
  have "map_insert cmp this (x, v) s
          = Some ((\<lparr>owner = Some this, cur = Some (next_addr s)\<rparr>, True), s')"
    using rep n l(1) descend_root[OF rep, of cmp x]
    by (simp add: map_insert_def tree_rep_def)
  with l(2-5) show ?thesis by blast
qed

lemma index_access_existing:
  assumes "tree_rep s this t" and "tfind cmp x t = Some a"
  shows "index_access cmp dflt this x s = Some (a, s)"
  using assms descend_root[OF assms(1), of cmp x]
  by (simp add: index_access_def tree_rep_def)

lemma index_access_new:
  assumes wf: "map_wf s this t" and n: "tfind cmp x t = None"
  shows "\<exists>s' t'. index_access cmp dflt this x s = Some (next_addr s, s')
           \<and> map_wf s' this t'
           \<and> inorder t' = before (tpath cmp x t []) @ (next_addr s, x, dflt) # after (tpath cmp x t [])
           \<and> others_unchanged (insert (next_addr s) (set (addrs t))) this s s'
           \<and> next_addr s' = Suc (next_addr s)"
proof -
  from wf have rep: "tree_rep s this t" by (simp add: map_wf_def)
  from link_new_wf[OF wf n, of dflt] obtain s' t' where
    l: "link_new cmp this x dflt (cpar (tpath cmp x t [])) s = Some (next_addr s, s')"
       "map_wf s' this t'"
       "inorder t' = before (tpath cmp x t []) @ (next_addr s, x, dflt) # after (tpath cmp x t [])"
       "others_unchanged (insert (next_addr s) (set (addrs t))) this s s'"
       "next_addr s' = Suc (next_addr s)" by blast
  have "index_access cmp dflt this x s = Some (next_addr s, s')"
    using rep n l(1) descend_root[OF rep, of cmp x]
    by (simp add: index_access_def tree_rep_def)
  with l(2-5) show ?thesis by blast
qed

lemma tree_at_node:
  "tree_at h par t \<Longrightarrow> (a, k, v) \<in> set (inorder t)
   \<Longrightarrow> \<exists>n. h a = Some n \<and> data_first n = k \<and> data_second n = v"
  by (induction t arbitrary: par) auto

lemma rep_get_second:
  "tree_rep s this t \<Longrightarrow> (a, k, v) \<in> set (inorder t) \<Longrightarrow> get_second s a = Some v"
  using tree_at_node[of "nodes s" None t a k v] by (auto simp: tree_rep_def get_second_def)

lemma rep_iter_deref:
  "tree_rep s this t \<Longrightarrow> (a, k, v) \<in> set (inorder t)
   \<Longrightarrow> iter_deref s \<lparr>owner = ow, cur = Some a\<rparr> = Some (Inr (k, v))"
  using tree_at_node[of "nodes s" None t a k v] by (auto simp: tree_rep_def iter_deref_def)

lemma at_rep:
  "tree_rep s this t \<Longrightarrow>
   at cmp this x s = Some (case tfind cmp x t of None \<Rightarrow> Inl Index_out_of_bound | Some a \<Rightarrow> Inr a)"
  by (simp add: at_def find_node_rep split: option.split)

lemma count_rep:
  "tree_rep s this t \<Longrightarrow> count cmp this x s = Some (if tfind cmp x t = None then 0 else 1)"
  by (simp add: count_def find_node_rep)

lemma map_find_rep:
  "tree_rep s this t \<Longrightarrow> map_find cmp this x s = Some \<lparr>owner = Some this, cur = tfind cmp x t\<rparr>"
  by (simp add: map_find_def find_node_rep)

section \<open>The small map\<close>

lemma swo_less_nat: "strict_weak_order ((<) :: nat \<Rightarrow> nat \<Rightarrow> bool)"
  by (auto simp: strict_weak_order_def eq_key_def)

lemma demo_world_insert:
  "(do { (r1, s1) \<leftarrow> map_insert (<) 0 (5, 50) (map_ctor 0 (empty_world :: (nat, nat) world));
         (r2, s2) \<leftarrow> map_insert (<) 0 (3, 30) s1;
         (r3, s3) \<leftarrow> map_insert (<) 0 (8, 80) s2;
         Some (map (nodes s3) [0, 1, 2, 3], maps s3 0, next_addr s3) })
   = Some (map (nodes demo_world) [0, 1, 2, 3], maps demo_world 0, next_addr demo_world)"
  by code_simp

lemma demo_map_wf: "map_wf demo_world 0 demo_tree"
  by (simp add: map_wf_def tree_rep_def demo_world_def demo_tree_def rbt_def get_root_def get_count_def)

lemma demo_bst: "bst (<) demo_tree"
  by (simp add: bst_def demo_tree_def)


section \<open>Walking the tree: minimum, maximum, successor, predecessor\<close>

lemma first_of_append [simp]:
  "first_of (xs @ ys) = (if xs = [] then first_of ys else first_of xs)"
  by (cases xs) auto

lemma last_of_simps [simp]:
  "last_of [] = None"
  "last_of (xs @ [x]) = Some x"
  "last_of (xs @ y # ys) = last_of (y # ys)"
  "last_of [x] = Some x"
  by (simp_all add: last_of_def)

lemma last_of_append [simp]:
  "last_of (xs @ ys) = (if ys = [] then last_of xs else last_of ys)"
  by (cases ys rule: rev_cases) (auto simp: last_of_def)

lemma last_of_Cons: "last_of (x # xs) = (if xs = [] then Some x else last_of xs)"
  using last_of_append[of "[x]" xs] by simp

lemma first_of_eq_None [simp]: "(first_of xs = None) = (xs = [])"
  by (cases xs) auto

lemma last_of_eq_None [simp]: "(last_of xs = None) = (xs = [])"
  by (simp add: last_of_def)

lemma first_of_map: "first_of (map f xs) = map_option f (first_of xs)"
  by (cases xs) auto

lemma last_of_map: "last_of (map f xs) = map_option f (last_of xs)"
  by (simp add: last_of_def first_of_map rev_map)

lemma addrs_eq_Nil [simp]: "(addrs t = []) = (t = Lf)"
  by (cases t) auto

lemma min_loop_rep:
  "tree_at (nodes s) par (Br l a k v c r) \<Longrightarrow> min_loop s a = first_of (addrs (Br l a k v c r))"
proof (induction l arbitrary: par a k v c r)
  case Lf
  then show ?case by (subst min_loop.simps) (simp add: get_left_def)
next
  case (Br l1 a1 k1 v1 c1 r1)
  from Br.prems have "tree_at (nodes s) (Some a) (Br l1 a1 k1 v1 c1 r1)" by simp
  from Br.IH(1)[OF this] Br.prems show ?case
    by (subst min_loop.simps) (simp add: get_left_def)
qed

lemma max_loop_rep:
  "tree_at (nodes s) par (Br l a k v c r) \<Longrightarrow> max_loop s a = last_of (addrs (Br l a k v c r))"
proof (induction r arbitrary: par a k v c l)
  case Lf
  then show ?case by (subst max_loop.simps) (simp add: get_right_def)
next
  case (Br l1 a1 k1 v1 c1 r1)
  from Br.prems have "tree_at (nodes s) (Some a) (Br l1 a1 k1 v1 c1 r1)" by simp
  from Br.IH(2)[OF this] Br.prems show ?case
    by (subst max_loop.simps) (simp add: get_right_def last_of_Cons)
qed

lemma min_node_rep:
  "tree_at (nodes s) par t \<Longrightarrow>
   min_node s (ptr_of t) = Some (first_of (addrs t))"
proof (cases t)
  case Lf
  then show ?thesis by (simp add: min_node_def)
next
  case (Br l a k v c r)
  assume "tree_at (nodes s) par t"
  from min_loop_rep[OF this[unfolded Br]] have m: "min_loop s a = first_of (addrs t)"
    by (simp only: Br)
  have "addrs t \<noteq> []" using Br by simp
  then obtain z where "first_of (addrs t) = Some z" by (cases "addrs t") auto
  with m Br show ?thesis by (simp add: min_node_def)
qed

lemma max_node_rep:
  "tree_at (nodes s) par t \<Longrightarrow>
   max_node s (ptr_of t) = Some (last_of (addrs t))"
proof (cases t)
  case Lf
  then show ?thesis by (simp add: max_node_def)
next
  case (Br l a k v c r)
  assume "tree_at (nodes s) par t"
  from max_loop_rep[OF this[unfolded Br]] have m: "max_loop s a = last_of (addrs t)"
    by (simp only: Br)
  have "addrs t \<noteq> []" using Br by simp
  then obtain z where "last_of (addrs t) = Some z" by (cases "addrs t" rule: rev_cases) auto
  with m Br show ?thesis by (simp add: max_node_def)
qed

lemma next_loop_rep:
  "ctx_at (nodes s) (Some x) cs \<Longrightarrow> distinct (caddrs cs) \<Longrightarrow> x \<notin> set (caddrs cs) \<Longrightarrow>
   next_loop s x (cpar cs) = Some (first_of (map fst (after cs)))"
proof (induction cs arbitrary: x)
  case Nil
  show ?case by (subst next_loop.simps) simp
next
  case (Cons f cs)
  show ?case
  proof (cases f)
    case (InL p k v c r)
    with Cons.prems show ?thesis
      by (subst next_loop.simps) (simp add: get_right_def)
  next
    case (InR l p k v c)
    with Cons.prems have "ctx_at (nodes s) (Some p) cs" "distinct (caddrs cs)" "p \<notin> set (caddrs cs)"
      by simp_all
    from Cons.IH[OF this] InR Cons.prems show ?thesis
      by (subst next_loop.simps) (simp add: get_right_def get_parent_def)
  qed
qed

lemma prev_loop_rep:
  "ctx_at (nodes s) (Some x) cs \<Longrightarrow> distinct (caddrs cs) \<Longrightarrow> x \<notin> set (caddrs cs) \<Longrightarrow>
   prev_loop s x (cpar cs) = Some (last_of (map fst (before cs)))"
proof (induction cs arbitrary: x)
  case Nil
  show ?case by (subst prev_loop.simps) simp
next
  case (Cons f cs)
  show ?case
  proof (cases f)
    case (InR l p k v c)
    with Cons.prems show ?thesis
      by (subst prev_loop.simps) (simp add: get_left_def)
  next
    case (InL p k v c r)
    with Cons.prems have "ctx_at (nodes s) (Some p) cs" "distinct (caddrs cs)" "p \<notin> set (caddrs cs)"
      by simp_all
    from Cons.IH[OF this] InL Cons.prems show ?thesis
      by (subst prev_loop.simps) (simp add: get_left_def get_parent_def)
  qed
qed

lemma next_node_rep:
  assumes "tree_rep s this (plug cs (Br l a k v c r))"
  shows "next_node s (Some a) =
     Some (first_of (addrs r @ map fst (after cs)))"
proof -
  from assms have n: "nodes s a = Some \<lparr>data_first = k, data_second = v, color = c,
      left = ptr_of l, right = ptr_of r, parent = cpar cs\<rparr>"
    and r: "tree_at (nodes s) (Some a) r"
    and c: "ctx_at (nodes s) (Some a) cs" "distinct (caddrs cs)" "a \<notin> set (caddrs cs)"
    by (auto simp: rep_defs)
  show ?thesis
  proof (cases r)
    case Lf
    with n next_loop_rep[OF c] show ?thesis
      by (simp add: next_node_def get_right_def get_parent_def)
  next
    case (Br l1 a1 k1 v1 c1 r1)
    with n min_node_rep[OF r] show ?thesis
      by (simp add: next_node_def get_right_def)
  qed
qed

lemma prev_node_rep:
  assumes "tree_rep s this (plug cs (Br l a k v c r))"
  shows "prev_node s (Some a) =
     Some (last_of (map fst (before cs) @ addrs l))"
proof -
  from assms have n: "nodes s a = Some \<lparr>data_first = k, data_second = v, color = c,
      left = ptr_of l, right = ptr_of r, parent = cpar cs\<rparr>"
    and l: "tree_at (nodes s) (Some a) l"
    and c: "ctx_at (nodes s) (Some a) cs" "distinct (caddrs cs)" "a \<notin> set (caddrs cs)"
    by (auto simp: rep_defs)
  show ?thesis
  proof (cases l)
    case Lf
    with n prev_loop_rep[OF c] show ?thesis
      by (simp add: prev_node_def get_left_def get_parent_def)
  next
    case (Br l1 a1 k1 v1 c1 r1)
    with n max_node_rep[OF l] show ?thesis
      by (simp add: prev_node_def get_left_def)
  qed
qed

text \<open>Every node of a tree is the root of a subtree under some path.\<close>

lemma focus_exists:
  "a \<in> set (addrs t) \<Longrightarrow> \<exists>cs' l k v c r. plug cs t = plug cs' (Br l a k v c r)"
proof (induction t arbitrary: cs)
  case Lf
  then show ?case by simp
next
  case (Br tl b kb vb cb tr)
  consider "a \<in> set (addrs tl)" | "a = b" | "a \<in> set (addrs tr)"
    using Br.prems by auto
  then show ?case
  proof cases
    case 1
    from Br.IH(1)[OF 1, of "InL b kb vb cb tr # cs"] show ?thesis by simp
  next
    case 2
    then show ?thesis by blast
  next
    case 3
    from Br.IH(2)[OF 3, of "InR tl b kb vb cb # cs"] show ?thesis by simp
  qed
qed

lemma distinct_split_unique:
  "distinct (xs @ a # ys) \<Longrightarrow> xs @ a # ys = xs' @ a # ys' \<Longrightarrow> xs = xs' \<and> ys = ys'"
proof (induction xs arbitrary: xs')
  case Nil
  then show ?case by (cases xs') auto
next
  case (Cons x xs)
  show ?case
  proof (cases xs')
    case Nil
    with Cons.prems show ?thesis by auto
  next
    case c: (Cons x' xs'')
    from Cons.prems(1) have d: "distinct (xs @ a # ys)" by simp
    from Cons.prems(2) c have e: "xs @ a # ys = xs'' @ a # ys'" and x: "x = x'" by simp_all
    from Cons.IH[OF d e] x c show ?thesis by simp
  qed
qed

lemma focus_split:
  assumes d: "distinct (addrs t)" and io: "inorder t = xs @ (a, k, v) # ys"
    and t: "t = plug cs (Br l a k' v' c r)"
  shows "map fst xs = map fst (before cs) @ addrs l \<and> map fst ys = addrs r @ map fst (after cs)"
proof -
  have "map fst (inorder t) = map fst xs @ a # map fst ys"
    by (simp only: io map_append list.map fst_conv)
  then have d': "distinct (map fst xs @ a # map fst ys)"
    using d by (simp only: addrs_def)
  have "map fst (inorder (plug cs (Br l a k' v' c r)))
      = (map fst (before cs) @ addrs l) @ a # (addrs r @ map fst (after cs))"
    by (simp add: inorder_plug addrs_def)
  then have e: "map fst xs @ a # map fst ys
      = (map fst (before cs) @ addrs l) @ a # (addrs r @ map fst (after cs))"
    unfolding t[symmetric] io by simp
  from distinct_split_unique[OF d' e] show ?thesis .
qed

lemma next_node_list:
  assumes rep: "tree_rep s this t" and io: "inorder t = xs @ (a, k, v) # ys"
  shows "next_node s (Some a) = Some (first_of (map fst ys))"
proof -
  have "a \<in> set (addrs t)" unfolding addrs_def io by simp
  from focus_exists[OF this, of "[]"] obtain cs l k' v' c r where
    t: "t = plug cs (Br l a k' v' c r)" by auto
  from rep have d: "distinct (addrs t)" by (simp add: tree_rep_def)
  from focus_split[OF d io t] have "map fst ys = addrs r @ map fst (after cs)" by simp
  with next_node_rep[OF rep[unfolded t]] show ?thesis by simp
qed

lemma prev_node_list:
  assumes rep: "tree_rep s this t" and io: "inorder t = xs @ (a, k, v) # ys"
  shows "prev_node s (Some a) = Some (last_of (map fst xs))"
proof -
  have "a \<in> set (addrs t)" unfolding addrs_def io by simp
  from focus_exists[OF this, of "[]"] obtain cs l k' v' c r where
    t: "t = plug cs (Br l a k' v' c r)" by auto
  from rep have d: "distinct (addrs t)" by (simp add: tree_rep_def)
  from focus_split[OF d io t] have "map fst xs = map fst (before cs) @ addrs l" by simp
  with prev_node_rep[OF rep[unfolded t]] show ?thesis by simp
qed

section \<open>A full traversal\<close>

lemma map_begin_rep:
  "tree_rep s this t \<Longrightarrow> map_begin this s = Some \<lparr>owner = Some this, cur = first_of (addrs t)\<rparr>"
  using min_node_rep[of s None t] by (simp add: map_begin_def tree_rep_def)

lemma iter_inc_list:
  assumes rep: "tree_rep s this t" and io: "inorder t = xs @ (a, k, v) # ys"
  shows "iter_inc s \<lparr>owner = Some this, cur = Some a\<rparr>
         = Some (Inr \<lparr>owner = Some this, cur = first_of (map fst ys)\<rparr>)"
  using next_node_list[OF rep io] by (simp add: iter_inc_def)

lemma traverse_list:
  assumes rep: "tree_rep s this t"
  shows "inorder t = xs @ ys \<Longrightarrow>
     traverse s \<lparr>owner = Some this, cur = first_of (map fst ys)\<rparr> (map_end this)
       = Some (Inr (map snd ys))"
proof (induction ys arbitrary: xs)
  case Nil
  show ?case by (subst traverse.simps) (simp add: iter_eq_def map_end_def)
next
  case (Cons e ys)
  obtain a k v where e: "e = (a, k, v)" by (cases e) auto
  from Cons.prems have io: "inorder t = xs @ (a, k, v) # ys" by (simp add: e)
  then have m: "(a, k, v) \<in> set (inorder t)" by simp
  have "inorder t = (xs @ [e]) @ ys" using Cons.prems by simp
  from Cons.IH[OF this] rep_iter_deref[OF rep m, of "Some this"] iter_inc_list[OF rep io]
  show ?case
    by (subst traverse.simps) (simp add: iter_eq_def map_end_def e)
qed

lemma entries_rep:
  assumes "tree_rep s this t"
  shows "entries this s = Some (Inr (items t))"
  using traverse_list[OF assms, of "[]" "inorder t"] map_begin_rep[OF assms]
  by (simp add: entries_def addrs_def items_def)

lemma bst_last_max:
  assumes swo: "strict_weak_order cmp" and b: "bst cmp t" and l: "inorder t = xs @ [(a, k, v)]"
  shows "\<forall>k' \<in> set (keys t). \<not> cmp k k'"
proof
  fix k' assume "k' \<in> set (keys t)"
  then have "k' = k \<or> k' \<in> set (map (\<lambda>e. fst (snd e)) xs)"
    unfolding keys_def l by auto
  moreover have "sorted_wrt cmp (map (\<lambda>e. fst (snd e)) xs @ [k])"
    using b unfolding bst_def keys_def l by simp
  then have "\<forall>x \<in> set (map (\<lambda>e. fst (snd e)) xs). cmp x k"
    by (simp add: sorted_wrt_append)
  ultimately show "\<not> cmp k k'"
    using swo_irrefl[OF swo] swo_trans[OF swo] by blast
qed

lemma iter_dec_end:
  assumes rep: "tree_rep s this t"
  shows "iter_dec s (map_end this) =
     Some (if t = Lf then Inl Invalid_iterator
           else Inr \<lparr>owner = Some this, cur = last_of (addrs t)\<rparr>)"
  using assms max_node_rep[of s None t]
  by (cases t) (auto simp: iter_dec_def map_end_def tree_rep_def)

lemma iter_dec_begin:
  assumes rep: "tree_rep s this t" and ne: "t \<noteq> Lf"
  shows "iter_dec s \<lparr>owner = Some this, cur = first_of (addrs t)\<rparr> = Some (Inl Invalid_iterator)"
proof -
  from ne obtain e ys where io: "inorder t = e # ys" by (cases t; cases "inorder t") auto
  obtain a k v where e: "e = (a, k, v)" by (cases e) auto
  from io e have f: "first_of (addrs t) = Some a" by (simp add: addrs_def)
  from io e have "inorder t = [] @ (a, k, v) # ys" by simp
  from prev_node_list[OF rep this] f show ?thesis by (simp add: iter_dec_def)
qed

section \<open>Small facts for the theorems below\<close>

lemma first_of_ex [simp]: "(\<exists>y. first_of xs = Some y) = (xs \<noteq> [])"
  by (cases xs) auto

lemma empty_map_wf: "map_wf (map_ctor this (empty_world :: ('k, 'v) world)) this Lf"
  by (simp add: map_wf_def tree_rep_def map_ctor_def empty_world_def rbt_def get_root_def get_count_def)

lemma rep_get_key:
  "tree_rep s this t \<Longrightarrow> (a, k, v) \<in> set (inorder t) \<Longrightarrow> get_key s a = Some k"
  using tree_at_node[of "nodes s" None t a k v] by (auto simp: tree_rep_def get_key_def)


section \<open>One turn of the loop of erase_fix\<close>

lemma tree_at_is_black:
  "tree_at (nodes s) par t \<Longrightarrow> is_black s (ptr_of t) = Some (\<not> color_of t)"
  by (cases t) (auto simp: is_black_def get_color_def)

text \<open>Case 2 on the left: the sibling is black with two black children; it turns red and the shortage moves to the parent.\<close>

lemma erase_fix_left_rest_case2:
  assumes rep: "tree_rep s this (plug (InL p kp vp cp (Br wnear wa kw vw False wfar) # cs) X)"
    and e0: "\<not> color_of wnear"
    and e1: "\<not> color_of wfar"
  shows "\<exists>s'. erase_fix_left_rest this (Some p) (Some wa) s = Some (Some p, cpar cs, s')
           \<and> tree_rep s' this (plug cs (Br X p kp vp cp (Br wnear wa kw vw True wfar)))
           \<and> unchanged_outside (set (addrs (plug (InL p kp vp cp (Br wnear wa kw vw False wfar) # cs) X))) this s s'"
proof -
  let ?A = "set (addrs (plug (InL p kp vp cp (Br wnear wa kw vw False wfar) # cs) X))"
  have f1: "tree_rep s this (plug (InR X p kp vp cp # cs) (Br wnear wa kw vw False wfar))"
    using rep by simp
  from set_color_rep[OF f1, of True] obtain s1 where s1: "set_color wa True s = Some s1"
     "tree_rep s1 this (plug (InR X p kp vp cp # cs) (Br wnear wa kw vw True wfar))"
     "unchanged_outside ?A this s s1" by (auto simp: set_addrs_plug)
  have b0: "is_black s (ptr_of wnear) = Some (\<not> color_of wnear)"
    using rep by (auto simp: rep_defs dest: tree_at_is_black)
  have b1: "is_black s (ptr_of wfar) = Some (\<not> color_of wfar)"
    using rep by (auto simp: rep_defs dest: tree_at_is_black)
  have "erase_fix_left_rest this (Some p) (Some wa) s = Some (Some p, cpar cs, s1)"
    using rep s1(1,2) b0 b1 e0 e1
    by (clarsimp simp add: erase_fix_left_rest_def erase_fix_left_def rep_defs get_defs is_red_def is_black_def
          left_of_def right_of_def parent_of_def set_color_if_def get_root_def)
  moreover have "unchanged_outside ?A this s s1"
    using s1(3) by (blast intro: unchanged_outside_same)
  ultimately show ?thesis using s1(2) by (intro exI[of _ s1]) simp
qed


text \<open>Case 4 on the left: the sibling is black and its far child is red; one rotation of the parent ends the loop.\<close>

lemma erase_fix_left_rest_case4:
  assumes rep: "tree_rep s this (plug (InL p kp vp cp (Br wnear wa kw vw False (Br fl fa kf vf True fr)) # cs) X)"
  shows "\<exists>s'. erase_fix_left_rest this (Some p) (Some wa) s = Some (ptr_of (plug cs (Br (Br X p kp vp False wnear) wa kw vw cp (Br fl fa kf vf False fr))), None, s')
           \<and> tree_rep s' this (plug cs (Br (Br X p kp vp False wnear) wa kw vw cp (Br fl fa kf vf False fr)))
           \<and> unchanged_outside (set (addrs (plug (InL p kp vp cp (Br wnear wa kw vw False (Br fl fa kf vf True fr)) # cs) X))) this s s'"
proof -
  let ?A = "set (addrs (plug (InL p kp vp cp (Br wnear wa kw vw False (Br fl fa kf vf True fr)) # cs) X))"
  have f1: "tree_rep s this (plug (InR X p kp vp cp # cs) (Br wnear wa kw vw False (Br fl fa kf vf True fr)))"
    using rep by simp
  from set_color_rep[OF f1, of cp] obtain s1 where s1: "set_color wa cp s = Some s1"
     "tree_rep s1 this (plug (InR X p kp vp cp # cs) (Br wnear wa kw vw cp (Br fl fa kf vf True fr)))"
     "unchanged_outside ?A this s s1" by (auto simp: set_addrs_plug)
  have f2: "tree_rep s1 this (plug cs (Br X p kp vp cp (Br wnear wa kw vw cp (Br fl fa kf vf True fr))))"
    using s1(2) by simp
  from set_color_rep[OF f2, of False] obtain s2 where s2: "set_color p False s1 = Some s2"
     "tree_rep s2 this (plug cs (Br X p kp vp False (Br wnear wa kw vw cp (Br fl fa kf vf True fr))))"
     "unchanged_outside ?A this s1 s2" by (auto simp: set_addrs_plug)
  have f3: "tree_rep s2 this (plug (InR wnear wa kw vw cp # InR X p kp vp False # cs) (Br fl fa kf vf True fr))"
    using s2(2) by simp
  from set_color_rep[OF f3, of False] obtain s3 where s3: "set_color fa False s2 = Some s3"
     "tree_rep s3 this (plug (InR wnear wa kw vw cp # InR X p kp vp False # cs) (Br fl fa kf vf False fr))"
     "unchanged_outside ?A this s2 s3" by (auto simp: set_addrs_plug)
  have f4: "tree_rep s3 this (plug cs (Br X p kp vp False (Br wnear wa kw vw cp (Br fl fa kf vf False fr))))"
    using s3(2) by simp
  from left_rotate_rep[OF f4] obtain s4 where s4: "left_rotate this p s3 = Some s4"
     "tree_rep s4 this (plug cs (Br (Br X p kp vp False wnear) wa kw vw cp (Br fl fa kf vf False fr)))"
     "unchanged_outside ?A this s3 s4" by (auto simp: set_addrs_plug)
  have b0: "is_black s (ptr_of wnear) = Some (\<not> color_of wnear)"
    using rep by (auto simp: rep_defs dest: tree_at_is_black)
  have "erase_fix_left_rest this (Some p) (Some wa) s = Some (ptr_of (plug cs (Br (Br X p kp vp False wnear) wa kw vw cp (Br fl fa kf vf False fr))), None, s4)"
    using rep s1(1,2) s2(1,2) s3(1,2) s4(1,2) b0 
    by (clarsimp simp add: erase_fix_left_rest_def erase_fix_left_def rep_defs get_defs is_red_def is_black_def
          left_of_def right_of_def parent_of_def set_color_if_def get_root_def)
  moreover have "unchanged_outside ?A this s s4"
    using s1(3) s2(3) s3(3) s4(3) by (blast intro: unchanged_outside_same)
  ultimately show ?thesis using s4(2) by (intro exI[of _ s4]) simp
qed


text \<open>Case 3 on the left: the sibling is black, its near child red and its far child black; the sibling is rotated, then case 4 runs.\<close>

lemma erase_fix_left_rest_case3:
  assumes rep: "tree_rep s this (plug (InL p kp vp cp (Br (Br nn na kn vn True nf) wa kw vw False wfar) # cs) X)"
    and e0: "\<not> color_of wfar"
  shows "\<exists>s'. erase_fix_left_rest this (Some p) (Some wa) s = Some (ptr_of (plug cs (Br (Br X p kp vp False nn) na kn vn cp (Br nf wa kw vw False wfar))), None, s')
           \<and> tree_rep s' this (plug cs (Br (Br X p kp vp False nn) na kn vn cp (Br nf wa kw vw False wfar)))
           \<and> unchanged_outside (set (addrs (plug (InL p kp vp cp (Br (Br nn na kn vn True nf) wa kw vw False wfar) # cs) X))) this s s'"
proof -
  let ?A = "set (addrs (plug (InL p kp vp cp (Br (Br nn na kn vn True nf) wa kw vw False wfar) # cs) X))"
  have f1: "tree_rep s this (plug (InL wa kw vw False wfar # InR X p kp vp cp # cs) (Br nn na kn vn True nf))"
    using rep by simp
  from set_color_rep[OF f1, of False] obtain s1 where s1: "set_color na False s = Some s1"
     "tree_rep s1 this (plug (InL wa kw vw False wfar # InR X p kp vp cp # cs) (Br nn na kn vn False nf))"
     "unchanged_outside ?A this s s1" by (auto simp: set_addrs_plug)
  have f2: "tree_rep s1 this (plug (InR X p kp vp cp # cs) (Br (Br nn na kn vn False nf) wa kw vw False wfar))"
    using s1(2) by simp
  from set_color_rep[OF f2, of True] obtain s2 where s2: "set_color wa True s1 = Some s2"
     "tree_rep s2 this (plug (InR X p kp vp cp # cs) (Br (Br nn na kn vn False nf) wa kw vw True wfar))"
     "unchanged_outside ?A this s1 s2" by (auto simp: set_addrs_plug)
  have f3: "tree_rep s2 this (plug (InR X p kp vp cp # cs) (Br (Br nn na kn vn False nf) wa kw vw True wfar))"
    using s2(2) by simp
  from right_rotate_rep[OF f3] obtain s3 where s3: "right_rotate this wa s2 = Some s3"
     "tree_rep s3 this (plug (InR X p kp vp cp # cs) (Br nn na kn vn False (Br nf wa kw vw True wfar)))"
     "unchanged_outside ?A this s2 s3" by (auto simp: set_addrs_plug)
  have f4: "tree_rep s3 this (plug (InR X p kp vp cp # cs) (Br nn na kn vn False (Br nf wa kw vw True wfar)))"
    using s3(2) by simp
  from set_color_rep[OF f4, of cp] obtain s4 where s4: "set_color na cp s3 = Some s4"
     "tree_rep s4 this (plug (InR X p kp vp cp # cs) (Br nn na kn vn cp (Br nf wa kw vw True wfar)))"
     "unchanged_outside ?A this s3 s4" by (auto simp: set_addrs_plug)
  have f5: "tree_rep s4 this (plug cs (Br X p kp vp cp (Br nn na kn vn cp (Br nf wa kw vw True wfar))))"
    using s4(2) by simp
  from set_color_rep[OF f5, of False] obtain s5 where s5: "set_color p False s4 = Some s5"
     "tree_rep s5 this (plug cs (Br X p kp vp False (Br nn na kn vn cp (Br nf wa kw vw True wfar))))"
     "unchanged_outside ?A this s4 s5" by (auto simp: set_addrs_plug)
  have f6: "tree_rep s5 this (plug (InR nn na kn vn cp # InR X p kp vp False # cs) (Br nf wa kw vw True wfar))"
    using s5(2) by simp
  from set_color_rep[OF f6, of False] obtain s6 where s6: "set_color wa False s5 = Some s6"
     "tree_rep s6 this (plug (InR nn na kn vn cp # InR X p kp vp False # cs) (Br nf wa kw vw False wfar))"
     "unchanged_outside ?A this s5 s6" by (auto simp: set_addrs_plug)
  have f7: "tree_rep s6 this (plug cs (Br X p kp vp False (Br nn na kn vn cp (Br nf wa kw vw False wfar))))"
    using s6(2) by simp
  from left_rotate_rep[OF f7] obtain s7 where s7: "left_rotate this p s6 = Some s7"
     "tree_rep s7 this (plug cs (Br (Br X p kp vp False nn) na kn vn cp (Br nf wa kw vw False wfar)))"
     "unchanged_outside ?A this s6 s7" by (auto simp: set_addrs_plug)
  have b0: "is_black s (ptr_of wfar) = Some (\<not> color_of wfar)"
    using rep by (auto simp: rep_defs dest: tree_at_is_black)
  have "erase_fix_left_rest this (Some p) (Some wa) s = Some (ptr_of (plug cs (Br (Br X p kp vp False nn) na kn vn cp (Br nf wa kw vw False wfar))), None, s7)"
    using rep s1(1,2) s2(1,2) s3(1,2) s4(1,2) s5(1,2) s6(1,2) s7(1,2) b0 e0
    by (clarsimp simp add: erase_fix_left_rest_def erase_fix_left_def rep_defs get_defs is_red_def is_black_def
          left_of_def right_of_def parent_of_def set_color_if_def get_root_def)
  moreover have "unchanged_outside ?A this s s7"
    using s1(3) s2(3) s3(3) s4(3) s5(3) s6(3) s7(3) by (blast intro: unchanged_outside_same)
  ultimately show ?thesis using s7(2) by (intro exI[of _ s7]) simp
qed


text \<open>Case 1 on the left: the sibling is red; it is made black, the parent red and rotated, and the rest runs with the new, black sibling.\<close>

lemma erase_fix_left_case1:
  assumes rep: "tree_rep s this (plug (InL p kp vp cp (Br wnear wa kw vw True wfar) # cs) X)"
  shows "\<exists>s'. erase_fix_left this (Some p) s = erase_fix_left_rest this (Some p) (ptr_of wnear) s'
           \<and> tree_rep s' this (plug cs (Br (Br X p kp vp True wnear) wa kw vw False wfar))
           \<and> unchanged_outside (set (addrs (plug (InL p kp vp cp (Br wnear wa kw vw True wfar) # cs) X))) this s s'"
proof -
  let ?A = "set (addrs (plug (InL p kp vp cp (Br wnear wa kw vw True wfar) # cs) X))"
  have f1: "tree_rep s this (plug (InR X p kp vp cp # cs) (Br wnear wa kw vw True wfar))"
    using rep by simp
  from set_color_rep[OF f1, of False] obtain s1 where s1: "set_color wa False s = Some s1"
     "tree_rep s1 this (plug (InR X p kp vp cp # cs) (Br wnear wa kw vw False wfar))"
     "unchanged_outside ?A this s s1" by (auto simp: set_addrs_plug)
  have f2: "tree_rep s1 this (plug cs (Br X p kp vp cp (Br wnear wa kw vw False wfar)))"
    using s1(2) by simp
  from set_color_rep[OF f2, of True] obtain s2 where s2: "set_color p True s1 = Some s2"
     "tree_rep s2 this (plug cs (Br X p kp vp True (Br wnear wa kw vw False wfar)))"
     "unchanged_outside ?A this s1 s2" by (auto simp: set_addrs_plug)
  have f3: "tree_rep s2 this (plug cs (Br X p kp vp True (Br wnear wa kw vw False wfar)))"
    using s2(2) by simp
  from left_rotate_rep[OF f3] obtain s3 where s3: "left_rotate this p s2 = Some s3"
     "tree_rep s3 this (plug cs (Br (Br X p kp vp True wnear) wa kw vw False wfar))"
     "unchanged_outside ?A this s2 s3" by (auto simp: set_addrs_plug)
  have "erase_fix_left this (Some p) s = erase_fix_left_rest this (Some p) (ptr_of wnear) s3"
    using rep s1(1,2) s2(1,2) s3(1,2)  
    by (clarsimp simp add: erase_fix_left_rest_def erase_fix_left_def rep_defs get_defs is_red_def is_black_def
          left_of_def right_of_def parent_of_def set_color_if_def get_root_def)
  moreover have "unchanged_outside ?A this s s3"
    using s1(3) s2(3) s3(3) by (blast intro: unchanged_outside_same)
  ultimately show ?thesis using s3(2) by (intro exI[of _ s3]) simp
qed


text \<open>With a black sibling on the left the block of case 1 is skipped.\<close>

lemma erase_fix_left_black_sibling:
  assumes rep: "tree_rep s this (plug (InL p kp vp cp w # cs) X)" and e0: "\<not> color_of w"
  shows "erase_fix_left this (Some p) s = erase_fix_left_rest this (Some p) (ptr_of w) s"
proof -
  have "is_red s (ptr_of w) = Some False"
    using rep e0 by (auto simp: rep_defs dest: tree_at_is_red)
  with rep show ?thesis
    by (clarsimp simp add: erase_fix_left_def rep_defs get_defs left_of_def right_of_def)
qed


text \<open>Case 2 on the right: the sibling is black with two black children; it turns red and the shortage moves to the parent.\<close>

lemma erase_fix_right_rest_case2:
  assumes rep: "tree_rep s this (plug (InR (Br wfar wa kw vw False wnear) p kp vp cp # cs) X)"
    and e0: "\<not> color_of wnear"
    and e1: "\<not> color_of wfar"
  shows "\<exists>s'. erase_fix_right_rest this (Some p) (Some wa) s = Some (Some p, cpar cs, s')
           \<and> tree_rep s' this (plug cs (Br (Br wfar wa kw vw True wnear) p kp vp cp X))
           \<and> unchanged_outside (set (addrs (plug (InR (Br wfar wa kw vw False wnear) p kp vp cp # cs) X))) this s s'"
proof -
  let ?A = "set (addrs (plug (InR (Br wfar wa kw vw False wnear) p kp vp cp # cs) X))"
  have f1: "tree_rep s this (plug (InL p kp vp cp X # cs) (Br wfar wa kw vw False wnear))"
    using rep by simp
  from set_color_rep[OF f1, of True] obtain s1 where s1: "set_color wa True s = Some s1"
     "tree_rep s1 this (plug (InL p kp vp cp X # cs) (Br wfar wa kw vw True wnear))"
     "unchanged_outside ?A this s s1" by (auto simp: set_addrs_plug)
  have b0: "is_black s (ptr_of wnear) = Some (\<not> color_of wnear)"
    using rep by (auto simp: rep_defs dest: tree_at_is_black)
  have b1: "is_black s (ptr_of wfar) = Some (\<not> color_of wfar)"
    using rep by (auto simp: rep_defs dest: tree_at_is_black)
  have "erase_fix_right_rest this (Some p) (Some wa) s = Some (Some p, cpar cs, s1)"
    using rep s1(1,2) b0 b1 e0 e1
    by (clarsimp simp add: erase_fix_right_rest_def erase_fix_right_def rep_defs get_defs is_red_def is_black_def
          left_of_def right_of_def parent_of_def set_color_if_def get_root_def)
  moreover have "unchanged_outside ?A this s s1"
    using s1(3) by (blast intro: unchanged_outside_same)
  ultimately show ?thesis using s1(2) by (intro exI[of _ s1]) simp
qed


text \<open>Case 4 on the right: the sibling is black and its far child is red; one rotation of the parent ends the loop.\<close>

lemma erase_fix_right_rest_case4:
  assumes rep: "tree_rep s this (plug (InR (Br (Br fl fa kf vf True fr) wa kw vw False wnear) p kp vp cp # cs) X)"
  shows "\<exists>s'. erase_fix_right_rest this (Some p) (Some wa) s = Some (ptr_of (plug cs (Br (Br fl fa kf vf False fr) wa kw vw cp (Br wnear p kp vp False X))), None, s')
           \<and> tree_rep s' this (plug cs (Br (Br fl fa kf vf False fr) wa kw vw cp (Br wnear p kp vp False X)))
           \<and> unchanged_outside (set (addrs (plug (InR (Br (Br fl fa kf vf True fr) wa kw vw False wnear) p kp vp cp # cs) X))) this s s'"
proof -
  let ?A = "set (addrs (plug (InR (Br (Br fl fa kf vf True fr) wa kw vw False wnear) p kp vp cp # cs) X))"
  have f1: "tree_rep s this (plug (InL p kp vp cp X # cs) (Br (Br fl fa kf vf True fr) wa kw vw False wnear))"
    using rep by simp
  from set_color_rep[OF f1, of cp] obtain s1 where s1: "set_color wa cp s = Some s1"
     "tree_rep s1 this (plug (InL p kp vp cp X # cs) (Br (Br fl fa kf vf True fr) wa kw vw cp wnear))"
     "unchanged_outside ?A this s s1" by (auto simp: set_addrs_plug)
  have f2: "tree_rep s1 this (plug cs (Br (Br (Br fl fa kf vf True fr) wa kw vw cp wnear) p kp vp cp X))"
    using s1(2) by simp
  from set_color_rep[OF f2, of False] obtain s2 where s2: "set_color p False s1 = Some s2"
     "tree_rep s2 this (plug cs (Br (Br (Br fl fa kf vf True fr) wa kw vw cp wnear) p kp vp False X))"
     "unchanged_outside ?A this s1 s2" by (auto simp: set_addrs_plug)
  have f3: "tree_rep s2 this (plug (InL wa kw vw cp wnear # InL p kp vp False X # cs) (Br fl fa kf vf True fr))"
    using s2(2) by simp
  from set_color_rep[OF f3, of False] obtain s3 where s3: "set_color fa False s2 = Some s3"
     "tree_rep s3 this (plug (InL wa kw vw cp wnear # InL p kp vp False X # cs) (Br fl fa kf vf False fr))"
     "unchanged_outside ?A this s2 s3" by (auto simp: set_addrs_plug)
  have f4: "tree_rep s3 this (plug cs (Br (Br (Br fl fa kf vf False fr) wa kw vw cp wnear) p kp vp False X))"
    using s3(2) by simp
  from right_rotate_rep[OF f4] obtain s4 where s4: "right_rotate this p s3 = Some s4"
     "tree_rep s4 this (plug cs (Br (Br fl fa kf vf False fr) wa kw vw cp (Br wnear p kp vp False X)))"
     "unchanged_outside ?A this s3 s4" by (auto simp: set_addrs_plug)
  have b0: "is_black s (ptr_of wnear) = Some (\<not> color_of wnear)"
    using rep by (auto simp: rep_defs dest: tree_at_is_black)
  have "erase_fix_right_rest this (Some p) (Some wa) s = Some (ptr_of (plug cs (Br (Br fl fa kf vf False fr) wa kw vw cp (Br wnear p kp vp False X))), None, s4)"
    using rep s1(1,2) s2(1,2) s3(1,2) s4(1,2) b0 
    by (clarsimp simp add: erase_fix_right_rest_def erase_fix_right_def rep_defs get_defs is_red_def is_black_def
          left_of_def right_of_def parent_of_def set_color_if_def get_root_def)
  moreover have "unchanged_outside ?A this s s4"
    using s1(3) s2(3) s3(3) s4(3) by (blast intro: unchanged_outside_same)
  ultimately show ?thesis using s4(2) by (intro exI[of _ s4]) simp
qed


text \<open>Case 3 on the right: the sibling is black, its near child red and its far child black; the sibling is rotated, then case 4 runs.\<close>

lemma erase_fix_right_rest_case3:
  assumes rep: "tree_rep s this (plug (InR (Br wfar wa kw vw False (Br nf na kn vn True nn)) p kp vp cp # cs) X)"
    and e0: "\<not> color_of wfar"
  shows "\<exists>s'. erase_fix_right_rest this (Some p) (Some wa) s = Some (ptr_of (plug cs (Br (Br wfar wa kw vw False nf) na kn vn cp (Br nn p kp vp False X))), None, s')
           \<and> tree_rep s' this (plug cs (Br (Br wfar wa kw vw False nf) na kn vn cp (Br nn p kp vp False X)))
           \<and> unchanged_outside (set (addrs (plug (InR (Br wfar wa kw vw False (Br nf na kn vn True nn)) p kp vp cp # cs) X))) this s s'"
proof -
  let ?A = "set (addrs (plug (InR (Br wfar wa kw vw False (Br nf na kn vn True nn)) p kp vp cp # cs) X))"
  have f1: "tree_rep s this (plug (InR wfar wa kw vw False # InL p kp vp cp X # cs) (Br nf na kn vn True nn))"
    using rep by simp
  from set_color_rep[OF f1, of False] obtain s1 where s1: "set_color na False s = Some s1"
     "tree_rep s1 this (plug (InR wfar wa kw vw False # InL p kp vp cp X # cs) (Br nf na kn vn False nn))"
     "unchanged_outside ?A this s s1" by (auto simp: set_addrs_plug)
  have f2: "tree_rep s1 this (plug (InL p kp vp cp X # cs) (Br wfar wa kw vw False (Br nf na kn vn False nn)))"
    using s1(2) by simp
  from set_color_rep[OF f2, of True] obtain s2 where s2: "set_color wa True s1 = Some s2"
     "tree_rep s2 this (plug (InL p kp vp cp X # cs) (Br wfar wa kw vw True (Br nf na kn vn False nn)))"
     "unchanged_outside ?A this s1 s2" by (auto simp: set_addrs_plug)
  have f3: "tree_rep s2 this (plug (InL p kp vp cp X # cs) (Br wfar wa kw vw True (Br nf na kn vn False nn)))"
    using s2(2) by simp
  from left_rotate_rep[OF f3] obtain s3 where s3: "left_rotate this wa s2 = Some s3"
     "tree_rep s3 this (plug (InL p kp vp cp X # cs) (Br (Br wfar wa kw vw True nf) na kn vn False nn))"
     "unchanged_outside ?A this s2 s3" by (auto simp: set_addrs_plug)
  have f4: "tree_rep s3 this (plug (InL p kp vp cp X # cs) (Br (Br wfar wa kw vw True nf) na kn vn False nn))"
    using s3(2) by simp
  from set_color_rep[OF f4, of cp] obtain s4 where s4: "set_color na cp s3 = Some s4"
     "tree_rep s4 this (plug (InL p kp vp cp X # cs) (Br (Br wfar wa kw vw True nf) na kn vn cp nn))"
     "unchanged_outside ?A this s3 s4" by (auto simp: set_addrs_plug)
  have f5: "tree_rep s4 this (plug cs (Br (Br (Br wfar wa kw vw True nf) na kn vn cp nn) p kp vp cp X))"
    using s4(2) by simp
  from set_color_rep[OF f5, of False] obtain s5 where s5: "set_color p False s4 = Some s5"
     "tree_rep s5 this (plug cs (Br (Br (Br wfar wa kw vw True nf) na kn vn cp nn) p kp vp False X))"
     "unchanged_outside ?A this s4 s5" by (auto simp: set_addrs_plug)
  have f6: "tree_rep s5 this (plug (InL na kn vn cp nn # InL p kp vp False X # cs) (Br wfar wa kw vw True nf))"
    using s5(2) by simp
  from set_color_rep[OF f6, of False] obtain s6 where s6: "set_color wa False s5 = Some s6"
     "tree_rep s6 this (plug (InL na kn vn cp nn # InL p kp vp False X # cs) (Br wfar wa kw vw False nf))"
     "unchanged_outside ?A this s5 s6" by (auto simp: set_addrs_plug)
  have f7: "tree_rep s6 this (plug cs (Br (Br (Br wfar wa kw vw False nf) na kn vn cp nn) p kp vp False X))"
    using s6(2) by simp
  from right_rotate_rep[OF f7] obtain s7 where s7: "right_rotate this p s6 = Some s7"
     "tree_rep s7 this (plug cs (Br (Br wfar wa kw vw False nf) na kn vn cp (Br nn p kp vp False X)))"
     "unchanged_outside ?A this s6 s7" by (auto simp: set_addrs_plug)
  have b0: "is_black s (ptr_of wfar) = Some (\<not> color_of wfar)"
    using rep by (auto simp: rep_defs dest: tree_at_is_black)
  have "erase_fix_right_rest this (Some p) (Some wa) s = Some (ptr_of (plug cs (Br (Br wfar wa kw vw False nf) na kn vn cp (Br nn p kp vp False X))), None, s7)"
    using rep s1(1,2) s2(1,2) s3(1,2) s4(1,2) s5(1,2) s6(1,2) s7(1,2) b0 e0
    by (clarsimp simp add: erase_fix_right_rest_def erase_fix_right_def rep_defs get_defs is_red_def is_black_def
          left_of_def right_of_def parent_of_def set_color_if_def get_root_def)
  moreover have "unchanged_outside ?A this s s7"
    using s1(3) s2(3) s3(3) s4(3) s5(3) s6(3) s7(3) by (blast intro: unchanged_outside_same)
  ultimately show ?thesis using s7(2) by (intro exI[of _ s7]) simp
qed


text \<open>Case 1 on the right: the sibling is red; it is made black, the parent red and rotated, and the rest runs with the new, black sibling.\<close>

lemma erase_fix_right_case1:
  assumes rep: "tree_rep s this (plug (InR (Br wfar wa kw vw True wnear) p kp vp cp # cs) X)"
  shows "\<exists>s'. erase_fix_right this (Some p) s = erase_fix_right_rest this (Some p) (ptr_of wnear) s'
           \<and> tree_rep s' this (plug cs (Br wfar wa kw vw False (Br wnear p kp vp True X)))
           \<and> unchanged_outside (set (addrs (plug (InR (Br wfar wa kw vw True wnear) p kp vp cp # cs) X))) this s s'"
proof -
  let ?A = "set (addrs (plug (InR (Br wfar wa kw vw True wnear) p kp vp cp # cs) X))"
  have f1: "tree_rep s this (plug (InL p kp vp cp X # cs) (Br wfar wa kw vw True wnear))"
    using rep by simp
  from set_color_rep[OF f1, of False] obtain s1 where s1: "set_color wa False s = Some s1"
     "tree_rep s1 this (plug (InL p kp vp cp X # cs) (Br wfar wa kw vw False wnear))"
     "unchanged_outside ?A this s s1" by (auto simp: set_addrs_plug)
  have f2: "tree_rep s1 this (plug cs (Br (Br wfar wa kw vw False wnear) p kp vp cp X))"
    using s1(2) by simp
  from set_color_rep[OF f2, of True] obtain s2 where s2: "set_color p True s1 = Some s2"
     "tree_rep s2 this (plug cs (Br (Br wfar wa kw vw False wnear) p kp vp True X))"
     "unchanged_outside ?A this s1 s2" by (auto simp: set_addrs_plug)
  have f3: "tree_rep s2 this (plug cs (Br (Br wfar wa kw vw False wnear) p kp vp True X))"
    using s2(2) by simp
  from right_rotate_rep[OF f3] obtain s3 where s3: "right_rotate this p s2 = Some s3"
     "tree_rep s3 this (plug cs (Br wfar wa kw vw False (Br wnear p kp vp True X)))"
     "unchanged_outside ?A this s2 s3" by (auto simp: set_addrs_plug)
  have "erase_fix_right this (Some p) s = erase_fix_right_rest this (Some p) (ptr_of wnear) s3"
    using rep s1(1,2) s2(1,2) s3(1,2)  
    by (clarsimp simp add: erase_fix_right_rest_def erase_fix_right_def rep_defs get_defs is_red_def is_black_def
          left_of_def right_of_def parent_of_def set_color_if_def get_root_def)
  moreover have "unchanged_outside ?A this s s3"
    using s1(3) s2(3) s3(3) by (blast intro: unchanged_outside_same)
  ultimately show ?thesis using s3(2) by (intro exI[of _ s3]) simp
qed


text \<open>With a black sibling on the right the block of case 1 is skipped.\<close>

lemma erase_fix_right_black_sibling:
  assumes rep: "tree_rep s this (plug (InR w p kp vp cp # cs) X)" and e0: "\<not> color_of w"
  shows "erase_fix_right this (Some p) s = erase_fix_right_rest this (Some p) (ptr_of w) s"
proof -
  have "is_red s (ptr_of w) = Some False"
    using rep e0 by (auto simp: rep_defs dest: tree_at_is_red)
  with rep show ?thesis
    by (clarsimp simp add: erase_fix_right_def rep_defs get_defs left_of_def right_of_def)
qed

section \<open>One turn of erase_fix keeps its invariant\<close>

lemma invc_ctx_weaken: "invc_ctx cs hc \<Longrightarrow> invc_ctx cs False"
proof (cases cs)
  case Nil
  then show ?thesis by simp
next
  case (Cons f cs')
  assume "invc_ctx cs hc"
  with Cons show ?thesis by (cases f) auto
qed


lemma erase_fix_left_rest_step:
  assumes rep: "tree_rep s this (plug (InL p kp vp cp W # cs) X)"
    and inv: "del_inv (InL p kp vp cp W # cs) X"
    and bx: "\<not> color_of X" and bw: "\<not> color_of W"
  shows "\<exists>x' xp' s' cs' X'. erase_fix_left_rest this (Some p) (ptr_of W) s = Some (x', xp', s')
     \<and> tree_rep s' this (plug cs' X') \<and> x' = ptr_of X' \<and> xp' = cpar cs' \<and> del_inv cs' X'
     \<and> (cs' = [] \<or> (length cs' < length (InL p kp vp cp W # cs) \<and> color_of X' = cp))
     \<and> inorder (plug cs' X') = inorder (plug (InL p kp vp cp W # cs) X)
     \<and> unchanged_outside (set (addrs (plug (InL p kp vp cp W # cs) X))) this s s'"
proof -
  from inv bw obtain wnear wa kw vw wfar where W: "W = Br wnear wa kw vw False wfar"
    by (cases W) (auto simp: del_inv_def)
  have X: "blacken X = X" using bx by (cases X) auto
  show ?thesis
  proof (cases "color_of wfar")
    case True
    then obtain fl fa kf vf fr where wf: "wfar = Br fl fa kf vf True fr" by (cases wfar) auto
    let ?Z = "Br (Br X p kp vp False wnear) wa kw vw cp (Br fl fa kf vf False fr)"
    from erase_fix_left_rest_case4[OF rep[unfolded W wf]] obtain s' where
      r: "erase_fix_left_rest this (Some p) (Some wa) s = Some (ptr_of (plug cs ?Z), None, s')"
         "tree_rep s' this (plug cs ?Z)"
         "unchanged_outside (set (addrs (plug (InL p kp vp cp W # cs) X))) this s s'"
      unfolding W wf by blast
    have "invh (plug cs ?Z)" "invc (plug cs ?Z)"
      using inv bx X unfolding W wf invh_plug invc_plug by (auto simp: del_inv_def)
    then have d: "del_inv [] (plug cs ?Z)"
      by (simp add: del_inv_def invc_blacken)
    show ?thesis unfolding W wf
      apply (rule exI[of _ "ptr_of (plug cs ?Z)"], rule exI[of _ None], rule exI[of _ s'], rule exI[of _ "[]"], rule exI[of _ "plug cs ?Z"])
      using r d apply (simp add: inorder_plug W wf)
      done
  next
    case False
    note bf = False
    show ?thesis
    proof (cases "color_of wnear")
      case True
      then obtain nn na kn vn nf where wn: "wnear = Br nn na kn vn True nf" by (cases wnear) auto
      let ?Z = "Br (Br X p kp vp False nn) na kn vn cp (Br nf wa kw vw False wfar)"
      from erase_fix_left_rest_case3[OF rep[unfolded W wn] bf] obtain s' where
        r: "erase_fix_left_rest this (Some p) (Some wa) s = Some (ptr_of (plug cs ?Z), None, s')"
           "tree_rep s' this (plug cs ?Z)"
           "unchanged_outside (set (addrs (plug (InL p kp vp cp W # cs) X))) this s s'"
        unfolding W wn by blast
      have "invh (plug cs ?Z)" "invc (plug cs ?Z)"
        using inv bx bf X unfolding W wn invh_plug invc_plug by (auto simp: del_inv_def)
      then have d: "del_inv [] (plug cs ?Z)"
        by (simp add: del_inv_def invc_blacken)
      show ?thesis unfolding W wn
        apply (rule exI[of _ "ptr_of (plug cs ?Z)"], rule exI[of _ None], rule exI[of _ s'], rule exI[of _ "[]"], rule exI[of _ "plug cs ?Z"])
        using r d apply (simp add: inorder_plug W wn)
        done
    next
      case False
      let ?Z = "Br X p kp vp cp (Br wnear wa kw vw True wfar)"
      from erase_fix_left_rest_case2[OF rep[unfolded W] False bf] obtain s' where
        r: "erase_fix_left_rest this (Some p) (Some wa) s = Some (Some p, cpar cs, s')"
           "tree_rep s' this (plug cs ?Z)"
           "unchanged_outside (set (addrs (plug (InL p kp vp cp W # cs) X))) this s s'"
        unfolding W by blast
      have d: "del_inv cs ?Z"
        using inv bx bf False X invc_ctx_weaken[of cs cp] unfolding W by (auto simp: del_inv_def)
      show ?thesis unfolding W
        apply (rule exI[of _ "Some p"], rule exI[of _ "cpar cs"], rule exI[of _ s'], rule exI[of _ cs], rule exI[of _ ?Z])
        using r d apply (simp add: inorder_plug W)
        done
    qed
  qed
qed

lemma erase_fix_left_step:
  assumes rep: "tree_rep s this (plug (InL p kp vp cp W # cs) X)"
    and inv: "del_inv (InL p kp vp cp W # cs) X"
    and bx: "\<not> color_of X"
  shows "\<exists>x' xp' s' cs' X'. erase_fix_left this (Some p) s = Some (x', xp', s')
     \<and> tree_rep s' this (plug cs' X') \<and> x' = ptr_of X' \<and> xp' = cpar cs' \<and> del_inv cs' X'
     \<and> (cs' = [] \<or> length cs' < length (InL p kp vp cp W # cs) \<or> color_of X')
     \<and> inorder (plug cs' X') = inorder (plug (InL p kp vp cp W # cs) X)
     \<and> unchanged_outside (set (addrs (plug (InL p kp vp cp W # cs) X))) this s s'"
proof (cases "color_of W")
  case False
  from erase_fix_left_rest_step[OF rep inv bx False]
  obtain x' xp' s' cs' X' where
    r: "erase_fix_left_rest this (Some p) (ptr_of W) s = Some (x', xp', s')"
       "tree_rep s' this (plug cs' X')" "x' = ptr_of X'" "xp' = cpar cs'" "del_inv cs' X'"
       "cs' = [] \<or> (length cs' < length (InL p kp vp cp W # cs) \<and> color_of X' = cp)"
       "inorder (plug cs' X') = inorder (plug (InL p kp vp cp W # cs) X)"
       "unchanged_outside (set (addrs (plug (InL p kp vp cp W # cs) X))) this s s'"
    by blast
  from r(6) have pr: "cs' = [] \<or> length cs' < length (InL p kp vp cp W # cs) \<or> color_of X'" by auto
  have e: "erase_fix_left this (Some p) s = Some (x', xp', s')"
    using erase_fix_left_black_sibling[OF rep False] r(1) by simp
  show ?thesis
    apply (rule exI[of _ x'], rule exI[of _ xp'], rule exI[of _ s'], rule exI[of _ cs'], rule exI[of _ X'])
    using e r(2-5,7,8) pr apply simp
    done
next
  case True
  then obtain wnear wa kw vw wfar where W: "W = Br wnear wa kw vw True wfar" by (cases W) auto
  from inv have cp: "\<not> cp" unfolding W by (auto simp: del_inv_def)
  let ?A = "set (addrs (plug (InL p kp vp cp W # cs) X))"
  let ?f1 = "InL p kp vp True wnear"
  let ?f2 = "InL wa kw vw False wfar"
  from erase_fix_left_case1[OF rep[unfolded W]] obtain s1 where
    c: "erase_fix_left this (Some p) s = erase_fix_left_rest this (Some p) (ptr_of wnear) s1"
       "tree_rep s1 this (plug (?f1 # ?f2 # cs) X)"
       "unchanged_outside ?A this s s1"
    unfolding W by auto
  have inv1: "del_inv (?f1 # ?f2 # cs) X"
    using inv cp unfolding W by (auto simp: del_inv_def)
  have bn: "\<not> color_of wnear"
    using inv unfolding W by (auto simp: del_inv_def)
  from erase_fix_left_rest_step[OF c(2) inv1 bx bn]
  obtain x' xp' s' cs' X' where
    r: "erase_fix_left_rest this (Some p) (ptr_of wnear) s1 = Some (x', xp', s')"
       "tree_rep s' this (plug cs' X')" "x' = ptr_of X'" "xp' = cpar cs'" "del_inv cs' X'"
       "cs' = [] \<or> (length cs' < length (?f1 # ?f2 # cs) \<and> color_of X' = True)"
       "inorder (plug cs' X') = inorder (plug (?f1 # ?f2 # cs) X)"
       "unchanged_outside (set (addrs (plug (?f1 # ?f2 # cs) X))) this s1 s'"
    by blast
  have same: "set (addrs (plug (?f1 # ?f2 # cs) X)) = ?A"
    unfolding W by (auto simp: set_addrs_plug)
  have u: "unchanged_outside ?A this s s'"
    using c(3) r(8) unfolding same by (rule unchanged_outside_same)
  have io: "inorder (plug cs' X') = inorder (plug (InL p kp vp cp W # cs) X)"
    using r(7) unfolding W by (simp add: inorder_plug)
  from r(6) have pr: "cs' = [] \<or> length cs' < length (InL p kp vp cp W # cs) \<or> color_of X'" by auto
  have e: "erase_fix_left this (Some p) s = Some (x', xp', s')" using c(1) r(1) by simp
  show ?thesis
    apply (rule exI[of _ x'], rule exI[of _ xp'], rule exI[of _ s'], rule exI[of _ cs'], rule exI[of _ X'])
    using e r(2-5) u io pr apply simp
    done
qed


lemma erase_fix_right_rest_step:
  assumes rep: "tree_rep s this (plug (InR W p kp vp cp # cs) X)"
    and inv: "del_inv (InR W p kp vp cp # cs) X"
    and bx: "\<not> color_of X" and bw: "\<not> color_of W"
  shows "\<exists>x' xp' s' cs' X'. erase_fix_right_rest this (Some p) (ptr_of W) s = Some (x', xp', s')
     \<and> tree_rep s' this (plug cs' X') \<and> x' = ptr_of X' \<and> xp' = cpar cs' \<and> del_inv cs' X'
     \<and> (cs' = [] \<or> (length cs' < length (InR W p kp vp cp # cs) \<and> color_of X' = cp))
     \<and> inorder (plug cs' X') = inorder (plug (InR W p kp vp cp # cs) X)
     \<and> unchanged_outside (set (addrs (plug (InR W p kp vp cp # cs) X))) this s s'"
proof -
  from inv bw obtain wnear wa kw vw wfar where W: "W = Br wfar wa kw vw False wnear"
    by (cases W) (auto simp: del_inv_def)
  have X: "blacken X = X" using bx by (cases X) auto
  show ?thesis
  proof (cases "color_of wfar")
    case True
    then obtain fl fa kf vf fr where wf: "wfar = Br fl fa kf vf True fr" by (cases wfar) auto
    let ?Z = "Br (Br fl fa kf vf False fr) wa kw vw cp (Br wnear p kp vp False X)"
    from erase_fix_right_rest_case4[OF rep[unfolded W wf]] obtain s' where
      r: "erase_fix_right_rest this (Some p) (Some wa) s = Some (ptr_of (plug cs ?Z), None, s')"
         "tree_rep s' this (plug cs ?Z)"
         "unchanged_outside (set (addrs (plug (InR W p kp vp cp # cs) X))) this s s'"
      unfolding W wf by blast
    have "invh (plug cs ?Z)" "invc (plug cs ?Z)"
      using inv bx X unfolding W wf invh_plug invc_plug by (auto simp: del_inv_def)
    then have d: "del_inv [] (plug cs ?Z)"
      by (simp add: del_inv_def invc_blacken)
    show ?thesis unfolding W wf
      apply (rule exI[of _ "ptr_of (plug cs ?Z)"], rule exI[of _ None], rule exI[of _ s'], rule exI[of _ "[]"], rule exI[of _ "plug cs ?Z"])
      using r d apply (simp add: inorder_plug W wf)
      done
  next
    case False
    note bf = False
    show ?thesis
    proof (cases "color_of wnear")
      case True
      then obtain nn na kn vn nf where wn: "wnear = Br nf na kn vn True nn" by (cases wnear) auto
      let ?Z = "Br (Br wfar wa kw vw False nf) na kn vn cp (Br nn p kp vp False X)"
      from erase_fix_right_rest_case3[OF rep[unfolded W wn] bf] obtain s' where
        r: "erase_fix_right_rest this (Some p) (Some wa) s = Some (ptr_of (plug cs ?Z), None, s')"
           "tree_rep s' this (plug cs ?Z)"
           "unchanged_outside (set (addrs (plug (InR W p kp vp cp # cs) X))) this s s'"
        unfolding W wn by blast
      have "invh (plug cs ?Z)" "invc (plug cs ?Z)"
        using inv bx bf X unfolding W wn invh_plug invc_plug by (auto simp: del_inv_def)
      then have d: "del_inv [] (plug cs ?Z)"
        by (simp add: del_inv_def invc_blacken)
      show ?thesis unfolding W wn
        apply (rule exI[of _ "ptr_of (plug cs ?Z)"], rule exI[of _ None], rule exI[of _ s'], rule exI[of _ "[]"], rule exI[of _ "plug cs ?Z"])
        using r d apply (simp add: inorder_plug W wn)
        done
    next
      case False
      let ?Z = "Br (Br wfar wa kw vw True wnear) p kp vp cp X"
      from erase_fix_right_rest_case2[OF rep[unfolded W] False bf] obtain s' where
        r: "erase_fix_right_rest this (Some p) (Some wa) s = Some (Some p, cpar cs, s')"
           "tree_rep s' this (plug cs ?Z)"
           "unchanged_outside (set (addrs (plug (InR W p kp vp cp # cs) X))) this s s'"
        unfolding W by blast
      have d: "del_inv cs ?Z"
        using inv bx bf False X invc_ctx_weaken[of cs cp] unfolding W by (auto simp: del_inv_def)
      show ?thesis unfolding W
        apply (rule exI[of _ "Some p"], rule exI[of _ "cpar cs"], rule exI[of _ s'], rule exI[of _ cs], rule exI[of _ ?Z])
        using r d apply (simp add: inorder_plug W)
        done
    qed
  qed
qed

lemma erase_fix_right_step:
  assumes rep: "tree_rep s this (plug (InR W p kp vp cp # cs) X)"
    and inv: "del_inv (InR W p kp vp cp # cs) X"
    and bx: "\<not> color_of X"
  shows "\<exists>x' xp' s' cs' X'. erase_fix_right this (Some p) s = Some (x', xp', s')
     \<and> tree_rep s' this (plug cs' X') \<and> x' = ptr_of X' \<and> xp' = cpar cs' \<and> del_inv cs' X'
     \<and> (cs' = [] \<or> length cs' < length (InR W p kp vp cp # cs) \<or> color_of X')
     \<and> inorder (plug cs' X') = inorder (plug (InR W p kp vp cp # cs) X)
     \<and> unchanged_outside (set (addrs (plug (InR W p kp vp cp # cs) X))) this s s'"
proof (cases "color_of W")
  case False
  from erase_fix_right_rest_step[OF rep inv bx False]
  obtain x' xp' s' cs' X' where
    r: "erase_fix_right_rest this (Some p) (ptr_of W) s = Some (x', xp', s')"
       "tree_rep s' this (plug cs' X')" "x' = ptr_of X'" "xp' = cpar cs'" "del_inv cs' X'"
       "cs' = [] \<or> (length cs' < length (InR W p kp vp cp # cs) \<and> color_of X' = cp)"
       "inorder (plug cs' X') = inorder (plug (InR W p kp vp cp # cs) X)"
       "unchanged_outside (set (addrs (plug (InR W p kp vp cp # cs) X))) this s s'"
    by blast
  from r(6) have pr: "cs' = [] \<or> length cs' < length (InR W p kp vp cp # cs) \<or> color_of X'" by auto
  have e: "erase_fix_right this (Some p) s = Some (x', xp', s')"
    using erase_fix_right_black_sibling[OF rep False] r(1) by simp
  show ?thesis
    apply (rule exI[of _ x'], rule exI[of _ xp'], rule exI[of _ s'], rule exI[of _ cs'], rule exI[of _ X'])
    using e r(2-5,7,8) pr apply simp
    done
next
  case True
  then obtain wnear wa kw vw wfar where W: "W = Br wfar wa kw vw True wnear" by (cases W) auto
  from inv have cp: "\<not> cp" unfolding W by (auto simp: del_inv_def)
  let ?A = "set (addrs (plug (InR W p kp vp cp # cs) X))"
  let ?f1 = "InR wnear p kp vp True"
  let ?f2 = "InR wfar wa kw vw False"
  from erase_fix_right_case1[OF rep[unfolded W]] obtain s1 where
    c: "erase_fix_right this (Some p) s = erase_fix_right_rest this (Some p) (ptr_of wnear) s1"
       "tree_rep s1 this (plug (?f1 # ?f2 # cs) X)"
       "unchanged_outside ?A this s s1"
    unfolding W by auto
  have inv1: "del_inv (?f1 # ?f2 # cs) X"
    using inv cp unfolding W by (auto simp: del_inv_def)
  have bn: "\<not> color_of wnear"
    using inv unfolding W by (auto simp: del_inv_def)
  from erase_fix_right_rest_step[OF c(2) inv1 bx bn]
  obtain x' xp' s' cs' X' where
    r: "erase_fix_right_rest this (Some p) (ptr_of wnear) s1 = Some (x', xp', s')"
       "tree_rep s' this (plug cs' X')" "x' = ptr_of X'" "xp' = cpar cs'" "del_inv cs' X'"
       "cs' = [] \<or> (length cs' < length (?f1 # ?f2 # cs) \<and> color_of X' = True)"
       "inorder (plug cs' X') = inorder (plug (?f1 # ?f2 # cs) X)"
       "unchanged_outside (set (addrs (plug (?f1 # ?f2 # cs) X))) this s1 s'"
    by blast
  have same: "set (addrs (plug (?f1 # ?f2 # cs) X)) = ?A"
    unfolding W by (auto simp: set_addrs_plug)
  have u: "unchanged_outside ?A this s s'"
    using c(3) r(8) unfolding same by (rule unchanged_outside_same)
  have io: "inorder (plug cs' X') = inorder (plug (InR W p kp vp cp # cs) X)"
    using r(7) unfolding W by (simp add: inorder_plug)
  from r(6) have pr: "cs' = [] \<or> length cs' < length (InR W p kp vp cp # cs) \<or> color_of X'" by auto
  have e: "erase_fix_right this (Some p) s = Some (x', xp', s')" using c(1) r(1) by simp
  show ?thesis
    apply (rule exI[of _ x'], rule exI[of _ xp'], rule exI[of _ s'], rule exI[of _ cs'], rule exI[of _ X'])
    using e r(2-5) u io pr apply simp
    done
qed

section \<open>erase_fix restores the invariants\<close>

lemma blacken_focus_rep:
  assumes "tree_rep s this (plug cs X)"
  shows "\<exists>s'. set_color_if (ptr_of X) False s = Some s'
           \<and> tree_rep s' this (plug cs (blacken X))
           \<and> unchanged_outside (set (addrs (plug cs X))) this s s'"
proof (cases X)
  case Lf
  with assms show ?thesis by (simp add: set_color_if_def)
next
  case (Br l a k v c r)
  from set_color_rep[OF assms[unfolded Br], of False] Br show ?thesis
    by (simp add: set_color_if_def)
qed

lemma faddr_last_mem: "cs \<noteq> [] \<Longrightarrow> faddr (last cs) \<in> set (caddrs cs)"
proof (induction cs)
  case Nil
  then show ?case by simp
next
  case (Cons f cs)
  then show ?case by (cases f; cases "cs = []") auto
qed

lemma focus_not_root:
  assumes "tree_rep s this (plug cs X)" and "cs \<noteq> []"
  shows "ptr_of X \<noteq> ptr_of (plug cs X)"
proof
  assume e: "ptr_of X = ptr_of (plug cs X)"
  with assms(2) have "ptr_of X = Some (faddr (last cs))" by (simp add: ptr_of_plug)
  then have "faddr (last cs) \<in> set (addrs X)" by (rule ptr_of_mem)
  moreover from assms have "set (addrs X) \<inter> set (caddrs cs) = {}" by (simp add: rep_defs)
  ultimately show False using faddr_last_mem[OF assms(2)] by auto
qed

lemma bh_blacken_red: "color_of X \<Longrightarrow> bh (blacken X) = Suc (bh X)"
  by (cases X) auto

lemma blacken_black: "\<not> color_of X \<Longrightarrow> blacken X = X"
  by (cases X) auto

lemma erase_fix_exit:
  assumes rep: "tree_rep s this (plug cs X)" and ex: "cs = [] \<or> color_of X"
  shows "erase_fix this (ptr_of X) (cpar cs) s = set_color_if (ptr_of X) False s"
proof -
  from rep have r: "get_root s this = Some (ptr_of (plug cs X))"
    and x: "tree_at (nodes s) (cpar cs) X" by (simp_all add: tree_rep_def tree_at_plug)
  have "(if ptr_of X \<noteq> ptr_of (plug cs X) then is_black s (ptr_of X) else Some False) = Some False"
    using ex tree_at_is_black[OF x] by auto
  with r show ?thesis by (subst erase_fix.simps) simp
qed

lemma erase_fix_continue:
  assumes rep: "tree_rep s this (plug (f # cs) X)" and bx: "\<not> color_of X"
    and inv: "del_inv (f # cs) X"
  shows "erase_fix this (ptr_of X) (Some (faddr f)) s =
     (if is_InL f then erase_fix_left this (Some (faddr f)) s
      else erase_fix_right this (Some (faddr f)) s)
     \<bind> (\<lambda>(x', x_parent', s'). erase_fix this x' x_parent' s')"
proof -
  from rep have r: "get_root s this = Some (ptr_of (plug (f # cs) X))"
    and x: "tree_at (nodes s) (cpar (f # cs)) X" by (simp_all only: tree_rep_def tree_at_plug)
  have ne: "ptr_of X \<noteq> ptr_of (plug (f # cs) X)"
    using focus_not_root[OF rep] by simp
  have ib: "is_black s (ptr_of X) = Some True"
    using bx tree_at_is_black[OF x] by simp
  have side: "left_of s (Some (faddr f)) \<bind> (\<lambda>xl. Some (ptr_of X = xl)) = Some (is_InL f)"
  proof (cases f)
    case (InL p kp vp cp W)
    with rep show ?thesis by (simp add: rep_defs left_of_def get_left_def)
  next
    case (InR W p kp vp cp)
    with inv have "W \<noteq> Lf" by (auto simp: del_inv_def)
    then obtain wl wa kw vw cw wr where W: "W = Br wl wa kw vw cw wr" by (cases W) auto
    from rep have "ptr_of X \<noteq> Some wa" unfolding InR W
      by (cases X) (auto simp: rep_defs)
    with rep InR W show ?thesis by (simp add: rep_defs left_of_def get_left_def)
  qed
  then obtain xl where xl: "left_of s (Some (faddr f)) = Some xl" "(ptr_of X = xl) = is_InL f"
    by (cases "left_of s (Some (faddr f))") auto
  show ?thesis
    by (subst erase_fix.simps) (simp add: r ne ib xl del: plug.simps)
qed

lemma erase_fix_done:
  assumes rep: "tree_rep s this (plug cs X)" and inv: "del_inv cs X"
    and ex: "cs = [] \<or> color_of X"
  shows "\<exists>s' T. erase_fix this (ptr_of X) (cpar cs) s = Some s' \<and> tree_rep s' this T \<and> rbt T
           \<and> inorder T = inorder (plug cs X)
           \<and> unchanged_outside (set (addrs (plug cs X))) this s s'"
proof -
  from blacken_focus_rep[OF rep] obtain s' where s':
    "set_color_if (ptr_of X) False s = Some s'" "tree_rep s' this (plug cs (blacken X))"
    "unchanged_outside (set (addrs (plug cs X))) this s s'" by blast
  have h: "invh_ctx cs (bh (blacken X))"
  proof (cases "cs = []")
    case True
    then show ?thesis by simp
  next
    case False
    with ex have "color_of X" by simp
    with inv show ?thesis by (simp add: del_inv_def bh_blacken_red)
  qed
  have "invh (plug cs (blacken X))" "invc (plug cs (blacken X))"
    "\<not> color_of (plug cs (blacken X))"
    using inv h unfolding invh_plug invc_plug color_of_plug by (auto simp: del_inv_def)
  then have "rbt (plug cs (blacken X))" by (simp add: rbt_def)
  with s' erase_fix_exit[OF rep ex] show ?thesis
    by (intro exI[of _ s'] exI[of _ "plug cs (blacken X)"]) (simp add: inorder_plug)
qed

lemma erase_fix_step:
  assumes rep: "tree_rep s this (plug (f # cs) X)"
    and inv: "del_inv (f # cs) X"
    and bx: "\<not> color_of X"
  shows "\<exists>x' xp' s' cs' X'.
       (if is_InL f then erase_fix_left this (Some (faddr f)) s
        else erase_fix_right this (Some (faddr f)) s) = Some (x', xp', s')
     \<and> tree_rep s' this (plug cs' X') \<and> x' = ptr_of X' \<and> xp' = cpar cs' \<and> del_inv cs' X'
     \<and> (cs' = [] \<or> length cs' < length (f # cs) \<or> color_of X')
     \<and> inorder (plug cs' X') = inorder (plug (f # cs) X)
     \<and> unchanged_outside (set (addrs (plug (f # cs) X))) this s s'"
proof (cases f)
  case (InL p kp vp cp W)
  from erase_fix_left_step[OF rep[unfolded InL] inv[unfolded InL] bx] InL show ?thesis by simp
next
  case (InR W p kp vp cp)
  from erase_fix_right_step[OF rep[unfolded InR] inv[unfolded InR] bx] InR show ?thesis by simp
qed

lemma erase_fix_rep:
  assumes "tree_rep s this (plug cs X)" and "del_inv cs X"
  shows "\<exists>s' T. erase_fix this (ptr_of X) (cpar cs) s = Some s' \<and> tree_rep s' this T \<and> rbt T
           \<and> inorder T = inorder (plug cs X)
           \<and> unchanged_outside (set (addrs (plug cs X))) this s s'"
  using assms
proof (induction "length cs" arbitrary: cs X s rule: less_induct)
  case less
  note rep = less.prems(1) and inv = less.prems(2)
  show ?case
  proof (cases "cs = [] \<or> color_of X")
    case True
    from erase_fix_done[OF rep inv True] show ?thesis .
  next
    case False
    then obtain f cs0 where cs: "cs = f # cs0" and bx: "\<not> color_of X" by (cases cs) auto
    from erase_fix_step[OF rep[unfolded cs] inv[unfolded cs] bx]
    obtain x' xp' s1 cs' X' where
      b: "(if is_InL f then erase_fix_left this (Some (faddr f)) s
           else erase_fix_right this (Some (faddr f)) s) = Some (x', xp', s1)"
         "tree_rep s1 this (plug cs' X')" "x' = ptr_of X'" "xp' = cpar cs'" "del_inv cs' X'"
         "cs' = [] \<or> length cs' < length cs \<or> color_of X'"
         "inorder (plug cs' X') = inorder (plug cs X)"
         "unchanged_outside (set (addrs (plug cs X))) this s s1"
      unfolding cs by blast
    have "\<exists>s' T. erase_fix this (ptr_of X') (cpar cs') s1 = Some s' \<and> tree_rep s' this T \<and> rbt T
           \<and> inorder T = inorder (plug cs' X')
           \<and> unchanged_outside (set (addrs (plug cs' X'))) this s1 s'"
    proof (cases "cs' = [] \<or> color_of X'")
      case True
      from erase_fix_done[OF b(2,5) True] show ?thesis .
    next
      case False
      with b(6) have "length cs' < length cs" by simp
      from less.hyps[OF this b(2,5)] show ?thesis .
    qed
    then obtain s' T where r: "erase_fix this (ptr_of X') (cpar cs') s1 = Some s'"
      "tree_rep s' this T" "rbt T" "inorder T = inorder (plug cs' X')"
      "unchanged_outside (set (addrs (plug cs' X'))) this s1 s'" by blast
    have same: "set (addrs (plug cs' X')) = set (addrs (plug cs X))"
      using b(7) by (simp add: addrs_def)
    have "erase_fix this (ptr_of X) (cpar cs) s = Some s'"
      using erase_fix_continue[OF rep[unfolded cs] bx inv[unfolded cs]] b(1,3,4) r(1)
      by (simp add: cs)
    moreover have "unchanged_outside (set (addrs (plug cs X))) this s s'"
      using b(8) r(5) unfolding same by (rule unchanged_outside_same)
    ultimately show ?thesis using r(2,3,4) b(7)
      by (intro exI[of _ s'] exI[of _ T]) simp
  qed
qed


section \<open>Taking a node out of the tree\<close>

lemma plug_append: "plug (xs @ ys) t = plug ys (plug xs t)"
  by (induction xs arbitrary: t) auto

lemma transplant_gen:
  assumes root: "get_root s this = Some (if cs = [] then Some u else Some (faddr (last cs)))"
    and ctx: "ctx_at (nodes s) (Some u) cs"
    and par: "get_parent s u = Some (cpar cs)"
    and u: "u \<notin> set (caddrs cs)"
    and v: "tree_at (nodes s) vp V" "distinct (addrs V)" "set (addrs V) \<inter> set (caddrs cs) = {}"
      "distinct (caddrs cs)"
  shows "\<exists>s'. transplant this u (ptr_of V) s = Some s' \<and> tree_rep s' this (plug cs V)
           \<and> unchanged_outside (set_option (cpar cs) \<union> set_option (ptr_of V)) this s s'"
proof (cases cs)
  case Nil
  with assms show ?thesis
    by (cases V) (clarsimp simp add: transplant_def rep_defs rw_defs unchanged_outside_def
        split: option.splits)+
next
  case (Cons f cs')
  show ?thesis
  proof (cases f)
    case (InL p kp vp cp pr)
    with Cons assms show ?thesis
      apply (cases V)
       apply (clarsimp simp add: transplant_def rep_defs rw_defs unchanged_outside_def)
      apply (clarsimp simp add: transplant_def rep_defs rw_defs unchanged_outside_def)
      apply blast
      done
  next
    case (InR pl p kp vp cp)
    with Cons assms show ?thesis
      apply (cases V)
       apply (clarsimp simp add: transplant_def rep_defs rw_defs unchanged_outside_def)
      apply (clarsimp simp add: transplant_def rep_defs rw_defs unchanged_outside_def)
      apply blast
      done
  qed
qed

lemma transplant_rep_right:
  assumes rep: "tree_rep s this (plug cs (Br l u k v c r))"
  shows "\<exists>s'. transplant this u (ptr_of r) s = Some s' \<and> tree_rep s' this (plug cs r)
           \<and> unchanged_outside (set_option (cpar cs) \<union> set_option (ptr_of r)) this s s'"
proof (rule transplant_gen)
  show "get_root s this = Some (if cs = [] then Some u else Some (faddr (last cs)))"
    using rep by (simp add: rep_defs)
  show "ctx_at (nodes s) (Some u) cs" using rep by (simp add: rep_defs)
  show "get_parent s u = Some (cpar cs)" using rep by (simp add: rep_defs get_defs)
  show "u \<notin> set (caddrs cs)" using rep by (simp add: rep_defs)
  show "tree_at (nodes s) (Some u) r" using rep by (simp add: rep_defs)
  show "distinct (addrs r)" using rep by (simp add: rep_defs)
  show "set (addrs r) \<inter> set (caddrs cs) = {}" using rep by (auto simp add: rep_defs)
  show "distinct (caddrs cs)" using rep by (simp add: rep_defs)
qed

lemma transplant_rep_left:
  assumes rep: "tree_rep s this (plug cs (Br l u k v c r))"
  shows "\<exists>s'. transplant this u (ptr_of l) s = Some s' \<and> tree_rep s' this (plug cs l)
           \<and> unchanged_outside (set_option (cpar cs) \<union> set_option (ptr_of l)) this s s'"
proof (rule transplant_gen)
  show "get_root s this = Some (if cs = [] then Some u else Some (faddr (last cs)))"
    using rep by (simp add: rep_defs)
  show "ctx_at (nodes s) (Some u) cs" using rep by (simp add: rep_defs)
  show "get_parent s u = Some (cpar cs)" using rep by (simp add: rep_defs get_defs)
  show "u \<notin> set (caddrs cs)" using rep by (simp add: rep_defs)
  show "tree_at (nodes s) (Some u) l" using rep by (simp add: rep_defs)
  show "distinct (addrs l)" using rep by (simp add: rep_defs)
  show "set (addrs l) \<inter> set (caddrs cs) = {}" using rep by (auto simp add: rep_defs)
  show "distinct (caddrs cs)" using rep by (simp add: rep_defs)
qed

lemma cpar_mem: "set_option (cpar cs) \<subseteq> set (caddrs cs)"
  by (cases cs rule: caddrs.cases) auto

lemma ptr_of_sub: "set_option (ptr_of t) \<subseteq> set (addrs t)"
  by (cases t) auto

lemma erase_unlink_left_null:
  assumes rep: "tree_rep s this (plug cs (Br Lf z kz vz cz r))"
  shows "\<exists>s'. erase_unlink this z s = Some (cz, ptr_of r, cpar cs, s')
           \<and> tree_rep s' this (plug cs r)
           \<and> unchanged_outside (set (addrs (plug cs (Br Lf z kz vz cz r))) - {z}) this s s'"
proof -
  from transplant_rep_right[OF rep] obtain s' where
    t: "transplant this z (ptr_of r) s = Some s'" "tree_rep s' this (plug cs r)"
       "unchanged_outside (set_option (cpar cs) \<union> set_option (ptr_of r)) this s s'" by blast
  have g: "get_color s z = Some cz" "get_left s z = Some None" "get_right s z = Some (ptr_of r)"
    "get_parent s z = Some (cpar cs)"
    using rep by (simp_all add: rep_defs get_defs)
  have "distinct (addrs (plug cs (Br Lf z kz vz cz r)))" using rep by (simp add: tree_rep_def)
  then have "set_option (cpar cs) \<union> set_option (ptr_of r) \<subseteq> set (addrs (plug cs (Br Lf z kz vz cz r))) - {z}"
    using cpar_mem[of cs] ptr_of_sub[of r] by (auto simp: set_addrs_plug distinct_addrs_plug)
  with t(3) have "unchanged_outside (set (addrs (plug cs (Br Lf z kz vz cz r))) - {z}) this s s'"
    by (rule unchanged_outside_mono)
  with t g show ?thesis by (simp add: erase_unlink_def)
qed

lemma erase_unlink_right_null:
  assumes rep: "tree_rep s this (plug cs (Br (Br ll la lk lv lc lr) z kz vz cz Lf))"
  shows "\<exists>s'. erase_unlink this z s = Some (cz, Some la, cpar cs, s')
           \<and> tree_rep s' this (plug cs (Br ll la lk lv lc lr))
           \<and> unchanged_outside (set (addrs (plug cs (Br (Br ll la lk lv lc lr) z kz vz cz Lf))) - {z}) this s s'"
proof -
  let ?l = "Br ll la lk lv lc lr"
  from transplant_rep_left[OF rep] obtain s' where
    t: "transplant this z (Some la) s = Some s'" "tree_rep s' this (plug cs ?l)"
       "unchanged_outside (set_option (cpar cs) \<union> set_option (ptr_of ?l)) this s s'" by auto
  have g: "get_color s z = Some cz" "get_left s z = Some (Some la)" "get_right s z = Some None"
    "get_parent s z = Some (cpar cs)"
    using rep by (simp_all add: rep_defs get_defs)
  have "distinct (addrs (plug cs (Br ?l z kz vz cz Lf)))" using rep by (simp add: tree_rep_def)
  then have "set_option (cpar cs) \<union> set_option (ptr_of ?l) \<subseteq> set (addrs (plug cs (Br ?l z kz vz cz Lf))) - {z}"
    using cpar_mem[of cs] by (auto simp: set_addrs_plug distinct_addrs_plug)
  with t(3) have "unchanged_outside (set (addrs (plug cs (Br ?l z kz vz cz Lf))) - {z}) this s s'"
    by (rule unchanged_outside_mono)
  with t g show ?thesis by (simp add: erase_unlink_def)
qed

lemma left_spine:
  "r \<noteq> Lf \<Longrightarrow> \<exists>ys y ky vy cy yr. r = plug ys (Br Lf y ky vy cy yr) \<and> list_all is_InL ys"
proof (induction r)
  case Lf
  then show ?case by simp
next
  case (Br l a k v c rr)
  show ?case
  proof (cases "l = Lf")
    case True
    then have "Br l a k v c rr = plug [] (Br Lf a k v c rr) \<and> list_all is_InL []" by simp
    then show ?thesis by blast
  next
    case False
    from Br.IH(1)[OF this] obtain ys y ky vy cy yr where
      l: "l = plug ys (Br Lf y ky vy cy yr)" "list_all is_InL ys" by blast
    then have "Br l a k v c rr = plug (ys @ [InL a k v c rr]) (Br Lf y ky vy cy yr)
       \<and> list_all is_InL (ys @ [InL a k v c rr])"
      by (simp add: plug_append)
    then show ?thesis by blast
  qed
qed

lemma before_InL: "list_all is_InL ys \<Longrightarrow> before ys = []"
  by (induction ys rule: before.induct) auto

lemma erase_relink:
  assumes root: "get_root s this = Some (if cs = [] then Some z else Some (faddr (last cs)))"
    and ctx: "ctx_at (nodes s) (Some z) cs"
    and zn: "nodes s z = Some \<lparr>data_first = kz, data_second = vz, color = cz,
                              left = ptr_of l, right = zr, parent = cpar cs\<rparr>"
    and l: "tree_at (nodes s) (Some z) l"
    and y: "tree_at (nodes s) yp (Br Lf y ky vy cy R)"
    and d: "distinct (addrs l @ z # y # addrs R @ caddrs cs)"
  shows "\<exists>s'. do { s \<leftarrow> transplant this z (Some y) s;
                   zl' \<leftarrow> get_left s z;
                   s \<leftarrow> set_left y zl' s;
                   s \<leftarrow> set_parent_if zl' (Some y) s;
                   zc' \<leftarrow> get_color s z;
                   s \<leftarrow> set_color y zc' s;
                   Some (yc, x, xp, s) } = Some (yc, x, xp, s')
            \<and> tree_rep s' this (plug cs (Br l y ky vy cz R))
            \<and> unchanged_outside (insert y (set_option (cpar cs) \<union> set_option (ptr_of l))) this s s'"
proof -
  let ?V = "Br Lf y ky vy cy R"
  have "\<exists>s'. transplant this z (ptr_of ?V) s = Some s' \<and> tree_rep s' this (plug cs ?V)
           \<and> unchanged_outside (set_option (cpar cs) \<union> set_option (ptr_of ?V)) this s s'"
  proof (rule transplant_gen)
    show "get_root s this = Some (if cs = [] then Some z else Some (faddr (last cs)))" by (rule root)
    show "ctx_at (nodes s) (Some z) cs" by (rule ctx)
    show "get_parent s z = Some (cpar cs)" using zn by (simp add: get_defs)
    show "z \<notin> set (caddrs cs)" using d by simp
    show "tree_at (nodes s) yp ?V" by (rule y)
    show "distinct (addrs ?V)" using d by simp
    show "set (addrs ?V) \<inter> set (caddrs cs) = {}" using d by auto
    show "distinct (caddrs cs)" using d by simp
  qed
  then obtain s1 where s1: "transplant this z (Some y) s = Some s1"
    "tree_rep s1 this (plug cs ?V)"
    "unchanged_outside (set_option (cpar cs) \<union> {y}) this s s1" by auto
  have zc: "z \<notin> set_option (cpar cs) \<union> {y}"
    using d cpar_mem[of cs] by auto
  have lc: "\<And>a. a \<in> set (addrs l) \<Longrightarrow> a \<notin> set_option (cpar cs) \<union> {y}"
    using d cpar_mem[of cs] by auto
  have z1: "nodes s1 z = nodes s z" using s1(3) zc by (simp add: unchanged_outside_def)
  have l1: "tree_at (nodes s1) (Some z) l"
    using l lc s1(3) tree_at_cong_on[of l "nodes s1" "nodes s" "Some z"]
    by (simp add: unchanged_outside_def)
  have dl: "distinct (addrs l)" "y \<notin> set (addrs l)" "set (addrs l) \<inter> set (addrs R) = {}"
    "set (addrs l) \<inter> set (caddrs cs) = {}"
    using d by auto
  have dz: "z \<noteq> y" "z \<notin> set (addrs l)" "z \<notin> set (addrs R)" "z \<notin> set (caddrs cs)"
    using d by auto
  show ?thesis
    using s1 z1 zn l1 dl dz
    apply (cases l)
     apply (clarsimp simp add: rep_defs rw_defs unchanged_outside_def)
    apply (clarsimp simp add: rep_defs rw_defs unchanged_outside_def)
    apply blast
    done
qed

lemma set_parent_if_same:
  "tree_at (nodes s) p t \<Longrightarrow> set_parent_if (ptr_of t) p s = Some s"
  by (cases t) (auto simp: rw_defs map_upd_triv)

lemma graft_right:
  assumes yn: "nodes s y = Some \<lparr>data_first = k, data_second = v, color = c,
                              left = pl, right = pr, parent = pp\<rparr>"
    and r: "tree_at (nodes s) vp R" "y \<notin> set (addrs R)" "distinct (addrs R)"
  shows "\<exists>s'. do { s \<leftarrow> set_right y (ptr_of R) s; set_parent_if (ptr_of R) (Some y) s } = Some s'
           \<and> nodes s' y = Some \<lparr>data_first = k, data_second = v, color = c,
                                 left = pl, right = ptr_of R, parent = pp\<rparr>
           \<and> tree_at (nodes s') (Some y) R
           \<and> maps s' = maps s \<and> next_addr s' = next_addr s
           \<and> (\<forall>a. a \<noteq> y \<and> Some a \<noteq> ptr_of R \<longrightarrow> nodes s' a = nodes s a)"
  using assms by (cases R) (auto simp: rw_defs)

lemma cpar_append: "cpar (ys @ f # cs) = (if ys = [] then Some (faddr f) else cpar ys)"
  by (cases ys) auto

lemma caddrs_append: "set (caddrs (ys @ cs)) = set (caddrs ys) \<union> set (caddrs cs)"
  by (induction ys rule: caddrs.induct) auto

lemma faddr_hd_mem: "ys \<noteq> [] \<Longrightarrow> faddr (hd ys) \<in> set (caddrs ys)"
  by (cases ys rule: caddrs.cases) auto

lemma erase_unlink_two:
  assumes rep: "tree_rep s this (plug cs (Br l z kz vz cz (plug ys (Br Lf y ky vy cy yr))))"
    and l: "l \<noteq> Lf" and ys: "list_all is_InL ys"
  shows "\<exists>s'. erase_unlink this z s = Some (cy, ptr_of yr, cpar (ys @ InR l y ky vy cz # cs), s')
           \<and> tree_rep s' this (plug (ys @ InR l y ky vy cz # cs) yr)
           \<and> unchanged_outside (set (addrs (plug cs (Br l z kz vz cz (plug ys (Br Lf y ky vy cy yr))))) - {z}) this s s'"
proof -
  let ?Y = "Br Lf y ky vy cy yr"
  let ?R = "plug ys ?Y"
  let ?F = "InR l z kz vz cz"
  let ?T = "plug cs (Br l z kz vz cz ?R)"
  have rep': "tree_rep s this (plug (ys @ ?F # cs) ?Y)"
    using rep by (simp add: plug_append)
  have gz: "get_color s z = Some cz" "get_left s z = Some (ptr_of l)" "get_right s z = Some (ptr_of ?R)"
    using rep by (simp_all add: rep_defs get_defs)
  have gy: "get_color s y = Some cy" "get_right s y = Some (ptr_of yr)"
    "get_parent s y = Some (cpar (ys @ ?F # cs))"
    "nodes s y = Some \<lparr>data_first = ky, data_second = vy, color = cy,
                        left = None, right = ptr_of yr, parent = cpar (ys @ ?F # cs)\<rparr>"
    using rep' by (simp_all add: rep_defs get_defs)
  have tr: "tree_at (nodes s) (Some z) ?R" using rep by (simp add: rep_defs)
  have "addrs ?R = y # addrs yr @ map fst (after ys)"
    using ys by (simp add: addrs_def inorder_plug before_InL)
  with min_node_rep[OF tr] have mn: "min_node s (ptr_of ?R) = Some (Some y)" by simp
  have nl: "ptr_of l \<noteq> None" "ptr_of ?R \<noteq> None" using l by (simp_all add: ptr_of_plug)
  have d: "distinct (addrs (plug (ys @ ?F # cs) ?Y))" using rep' by (simp add: tree_rep_def)
  then have dd: "distinct (addrs ?Y)" "distinct (caddrs (ys @ ?F # cs))"
    "set (addrs ?Y) \<inter> set (caddrs (ys @ ?F # cs)) = {}"
    by (simp_all only: distinct_addrs_plug)
  have same: "set (addrs (plug (ys @ ?F # cs) ?Y)) = set (addrs ?T)" by (simp add: plug_append)
  have dT: "distinct (addrs ?T)" using rep by (simp add: tree_rep_def)
  show ?thesis
  proof (cases "ys = []")
    case True
    have p: "set_parent_if (ptr_of yr) (Some y) s = Some s"
      using rep True by (intro set_parent_if_same) (simp add: rep_defs)
    have "\<exists>s'. do { s \<leftarrow> transplant this z (Some y) s;
                   zl' \<leftarrow> get_left s z;
                   s \<leftarrow> set_left y zl' s;
                   s \<leftarrow> set_parent_if zl' (Some y) s;
                   zc' \<leftarrow> get_color s z;
                   s \<leftarrow> set_color y zc' s;
                   Some (cy, ptr_of yr, Some y, s) } = Some (cy, ptr_of yr, Some y, s')
            \<and> tree_rep s' this (plug cs (Br l y ky vy cz yr))
            \<and> unchanged_outside (insert y (set_option (cpar cs) \<union> set_option (ptr_of l))) this s s'"
    proof (rule erase_relink)
      show "get_root s this = Some (if cs = [] then Some z else Some (faddr (last cs)))"
        using rep by (simp add: rep_defs)
      show "ctx_at (nodes s) (Some z) cs" using rep by (simp add: rep_defs)
      show "nodes s z = Some \<lparr>data_first = kz, data_second = vz, color = cz,
                              left = ptr_of l, right = Some y, parent = cpar cs\<rparr>"
        using rep True by (simp add: rep_defs)
      show "tree_at (nodes s) (Some z) l" using rep by (simp add: rep_defs)
      show "tree_at (nodes s) (Some z) (Br Lf y ky vy cy yr)" using tr True by simp
      show "distinct (addrs l @ z # y # addrs yr @ caddrs cs)"
        using rep True by (auto simp add: rep_defs)
    qed
    then obtain s' where s': "do { s \<leftarrow> transplant this z (Some y) s;
                   zl' \<leftarrow> get_left s z;
                   s \<leftarrow> set_left y zl' s;
                   s \<leftarrow> set_parent_if zl' (Some y) s;
                   zc' \<leftarrow> get_color s z;
                   s \<leftarrow> set_color y zc' s;
                   Some (cy, ptr_of yr, Some y, s) } = Some (cy, ptr_of yr, Some y, s')"
      "tree_rep s' this (plug cs (Br l y ky vy cz yr))"
      "unchanged_outside (insert y (set_option (cpar cs) \<union> set_option (ptr_of l))) this s s'"
      by blast
    have "insert y (set_option (cpar cs) \<union> set_option (ptr_of l)) \<subseteq> set (addrs ?T) - {z}"
      using cpar_mem[of cs] ptr_of_sub[of l] True dT
      by (auto simp: set_addrs_plug distinct_addrs_plug)
    with s'(3) have u: "unchanged_outside (set (addrs ?T) - {z}) this s s'"
      by (rule unchanged_outside_mono)
    have "erase_unlink this z s = Some (cy, ptr_of yr, Some y, s')"
      using gz gy mn nl p s'(1) True by (simp add: erase_unlink_def)
    with s'(2) u True show ?thesis by simp
  next
    case False
    then obtain f ys' where fy: "ys = f # ys'" by (cases ys) auto
    have yp: "cpar (ys @ ?F # cs) = Some (faddr f)" using fy by simp
    have hf: "faddr f \<in> set (caddrs ys)" using faddr_hd_mem[OF False] fy by simp
    have fz: "faddr f \<noteq> z" using dd(2) fy by (cases f) (auto simp: caddrs_append)
    from transplant_rep_right[OF rep'] obtain s1 where s1:
      "transplant this y (ptr_of yr) s = Some s1"
      "tree_rep s1 this (plug (ys @ ?F # cs) yr)"
      "unchanged_outside (set_option (cpar (ys @ ?F # cs)) \<union> set_option (ptr_of yr)) this s s1"
      by blast
    let ?R1 = "plug ys yr"
    have rep1: "tree_rep s1 this (plug cs (Br l z kz vz cz ?R1))"
      using s1(2) by (simp add: plug_append)
    have y1: "nodes s1 y = nodes s y"
      using s1(3) dd fy by (cases f) (auto simp add: unchanged_outside_def yp caddrs_append)
    have gz1: "get_right s1 z = Some (ptr_of ?R1)"
      using rep1 by (simp add: rep_defs get_defs)
    have yR1: "y \<notin> set (addrs ?R1)"
      using dd by (auto simp: set_addrs_plug caddrs_append)
    have "\<exists>s'. do { s \<leftarrow> set_right y (ptr_of ?R1) s1; set_parent_if (ptr_of ?R1) (Some y) s } = Some s'
           \<and> nodes s' y = Some \<lparr>data_first = ky, data_second = vy, color = cy,
                                 left = None, right = ptr_of ?R1, parent = Some (faddr f)\<rparr>
           \<and> tree_at (nodes s') (Some y) ?R1
           \<and> maps s' = maps s1 \<and> next_addr s' = next_addr s1
           \<and> (\<forall>a. a \<noteq> y \<and> Some a \<noteq> ptr_of ?R1 \<longrightarrow> nodes s' a = nodes s1 a)"
    proof (rule graft_right)
      show "nodes s1 y = Some \<lparr>data_first = ky, data_second = vy, color = cy,
                              left = None, right = ptr_of yr, parent = Some (faddr f)\<rparr>"
        using y1 gy(4) yp by simp
      show "tree_at (nodes s1) (Some z) ?R1" using rep1 by (simp add: rep_defs)
      show "y \<notin> set (addrs ?R1)" by (rule yR1)
      show "distinct (addrs ?R1)" using rep1 by (simp add: rep_defs)
    qed
    then obtain s3 where s3:
      "do { s \<leftarrow> set_right y (ptr_of ?R1) s1; set_parent_if (ptr_of ?R1) (Some y) s } = Some s3"
      "nodes s3 y = Some \<lparr>data_first = ky, data_second = vy, color = cy,
                                 left = None, right = ptr_of ?R1, parent = Some (faddr f)\<rparr>"
      "tree_at (nodes s3) (Some y) ?R1"
      "maps s3 = maps s1" "next_addr s3 = next_addr s1"
      "\<And>a. a \<noteq> y \<Longrightarrow> Some a \<noteq> ptr_of ?R1 \<Longrightarrow> nodes s3 a = nodes s1 a"
      by blast
    have d1: "distinct (addrs l @ z # addrs ?R1 @ caddrs cs)"
      using rep1 by (auto simp add: rep_defs)
    have ynot: "y \<notin> set (addrs l)" "y \<noteq> z" "y \<notin> set (caddrs cs)"
      using dd by (auto simp: caddrs_append)
    have keep: "nodes s3 a = nodes s1 a" if "a \<noteq> y" "a \<notin> set (addrs ?R1)" for a
      using s3(6)[of a] that ptr_of_mem[of ?R1 a] by auto
    have "\<exists>s'. do { s \<leftarrow> transplant this z (Some y) s3;
                   zl' \<leftarrow> get_left s z;
                   s \<leftarrow> set_left y zl' s;
                   s \<leftarrow> set_parent_if zl' (Some y) s;
                   zc' \<leftarrow> get_color s z;
                   s \<leftarrow> set_color y zc' s;
                   Some (cy, ptr_of yr, Some (faddr f), s) } = Some (cy, ptr_of yr, Some (faddr f), s')
            \<and> tree_rep s' this (plug cs (Br l y ky vy cz ?R1))
            \<and> unchanged_outside (insert y (set_option (cpar cs) \<union> set_option (ptr_of l))) this s3 s'"
    proof (rule erase_relink)
      show "get_root s3 this = Some (if cs = [] then Some z else Some (faddr (last cs)))"
        using rep1 s3(4) by (auto simp add: rep_defs get_root_def)
      have "ctx_at (nodes s3) (Some z) cs = ctx_at (nodes s1) (Some z) cs"
        using d1 ynot by (intro ctx_at_cong_on keep) auto
      then show "ctx_at (nodes s3) (Some z) cs" using rep1 by (simp add: rep_defs)
      have "nodes s3 z = nodes s1 z" using d1 ynot by (intro keep) auto
      then show "nodes s3 z = Some \<lparr>data_first = kz, data_second = vz, color = cz,
                              left = ptr_of l, right = ptr_of ?R1, parent = cpar cs\<rparr>"
        using rep1 by (simp add: rep_defs)
      have "tree_at (nodes s3) (Some z) l = tree_at (nodes s1) (Some z) l"
        using d1 ynot by (intro tree_at_cong_on keep) auto
      then show "tree_at (nodes s3) (Some z) l" using rep1 by (simp add: rep_defs)
      show "tree_at (nodes s3) (Some (faddr f)) (Br Lf y ky vy cy ?R1)"
        using s3(2,3) by simp
      show "distinct (addrs l @ z # y # addrs ?R1 @ caddrs cs)"
        using d1 ynot yR1 by auto
    qed
    then obtain s' where s': "do { s \<leftarrow> transplant this z (Some y) s3;
                   zl' \<leftarrow> get_left s z;
                   s \<leftarrow> set_left y zl' s;
                   s \<leftarrow> set_parent_if zl' (Some y) s;
                   zc' \<leftarrow> get_color s z;
                   s \<leftarrow> set_color y zc' s;
                   Some (cy, ptr_of yr, Some (faddr f), s) } = Some (cy, ptr_of yr, Some (faddr f), s')"
      "tree_rep s' this (plug cs (Br l y ky vy cz ?R1))"
      "unchanged_outside (insert y (set_option (cpar cs) \<union> set_option (ptr_of l))) this s3 s'"
      by blast
    have sub1: "set_option (cpar (ys @ ?F # cs)) \<union> set_option (ptr_of yr) \<subseteq> set (addrs ?T) - {z}"
      using ptr_of_sub[of yr] dT fz hf unfolding yp
      by (auto simp: set_addrs_plug distinct_addrs_plug)
    have sub3: "insert y (set (addrs ?R1)) \<subseteq> set (addrs ?T) - {z}"
      using dT by (auto simp: set_addrs_plug distinct_addrs_plug)
    have sub7: "insert y (set_option (cpar cs) \<union> set_option (ptr_of l)) \<subseteq> set (addrs ?T) - {z}"
      using cpar_mem[of cs] ptr_of_sub[of l] dT
      by (auto simp: set_addrs_plug distinct_addrs_plug)
    have u13: "unchanged_outside (insert y (set (addrs ?R1))) this s1 s3"
      using keep s3(4,5) by (simp add: unchanged_outside_def get_count_def)
    have u: "unchanged_outside (set (addrs ?T) - {z}) this s s'"
      using unchanged_outside_mono[OF s1(3) sub1] unchanged_outside_mono[OF u13 sub3]
        unchanged_outside_mono[OF s'(3) sub7]
      by (blast intro: unchanged_outside_same)
    have ne: "(Some (faddr f) = Some z) = False" using fz by simp
    from s3(1) obtain s2 where s2: "set_right y (ptr_of ?R1) s1 = Some s2"
      "set_parent_if (ptr_of ?R1) (Some y) s2 = Some s3"
      by (auto simp: bind_eq_Some_conv)
    have "erase_unlink this z s = Some (cy, ptr_of yr, Some (faddr f), s')"
      using gz gy(1,2) mn nl s1(1) gz1 s'(1) s2 fz
      by (simp add: erase_unlink_def gy(3) yp ne del: plug.simps)
    with s'(2) u fy show ?thesis by (simp add: plug_append)
  qed
qed

section \<open>What the removal leaves for the fix-up\<close>

lemma invh_ctx_append:
  "list_all is_InL ys \<Longrightarrow>
   invh_ctx (ys @ cs) (bh t) = (invh_ctx ys (bh t) \<and> invh_ctx cs (bh (plug ys t)))"
proof (induction ys arbitrary: t)
  case Nil
  show ?case by simp
next
  case (Cons f ys)
  then obtain a k v c r where f: "f = InL a k v c r" by (cases f) auto
  from Cons.prems have "list_all is_InL ys" by simp
  from Cons.IH[OF this, of "fill f t"] show ?case by (auto simp: f)
qed

lemma bh_plug_cong:
  "list_all is_InL ys \<Longrightarrow> bh t = bh t' \<Longrightarrow> bh (plug ys t) = bh (plug ys t')"
proof (induction ys arbitrary: t t')
  case Nil
  then show ?case by simp
next
  case (Cons f ys)
  then obtain a k v c r where f: "f = InL a k v c r" by (cases f) auto
  from Cons.prems have "list_all is_InL ys" by simp
  from Cons.IH[OF this, of "fill f t" "fill f t'"] Cons.prems(2) show ?case by (simp add: f)
qed

lemma invh_ctx_cong:
  "list_all is_InL ys \<Longrightarrow> invh_ctx ys n \<Longrightarrow> bh t = n \<Longrightarrow> bh t' = n
   \<Longrightarrow> invh_ctx (ys @ cs) n = invh_ctx cs (bh (plug ys t'))"
  using invh_ctx_append[of ys cs t'] by simp

lemma invc_ctx_append:
  "invc_ctx (ys @ cs) hc = (invc_ctx ys hc \<and> invc_ctx cs (if ys = [] then hc else fcolor (last ys)))"
proof (induction ys arbitrary: hc)
  case Nil
  show ?case by simp
next
  case (Cons f ys)
  then show ?case by (cases f) auto
qed

lemma last_append_frame: "last (ys @ f # cs) = (if cs = [] then f else last cs)"
  by simp

lemma unlink_inv_left_null:
  assumes "rbt (plug cs (Br Lf a k v c r))"
  shows "if c then rbt (plug cs r) else del_inv cs r"
proof -
  from assms have h: "invh r" "bh r = 0" "invh_ctx cs (if c then 0 else Suc 0)"
    and cc: "invc r" "c \<longrightarrow> \<not> color_of r" "invc_ctx cs c"
    and rt: "cs = [] \<longrightarrow> \<not> c" "cs \<noteq> [] \<longrightarrow> \<not> fcolor (last cs)"
    by (auto simp: rbt_def invh_plug invc_plug color_of_plug)
  show ?thesis
  proof (cases c)
    case True
    with cc invc_ctx_weaken[of cs c] have "invc_ctx cs (color_of r)" by simp
    with True h cc rt show ?thesis
      by (auto simp: rbt_def invh_plug invc_plug color_of_plug)
  next
    case False
    with h cc rt show ?thesis by (simp add: del_inv_def invc_blacken)
  qed
qed

lemma unlink_inv_right_null:
  assumes "rbt (plug cs (Br l a k v c Lf))"
  shows "if c then rbt (plug cs l) else del_inv cs l"
proof -
  from assms have h: "invh l" "bh l = 0" "invh_ctx cs (if c then 0 else Suc 0)"
    and cc: "invc l" "c \<longrightarrow> \<not> color_of l" "invc_ctx cs c"
    and rt: "cs = [] \<longrightarrow> \<not> c" "cs \<noteq> [] \<longrightarrow> \<not> fcolor (last cs)"
    by (auto simp: rbt_def invh_plug invc_plug color_of_plug)
  show ?thesis
  proof (cases c)
    case True
    with cc invc_ctx_weaken[of cs c] have "invc_ctx cs (color_of l)" by simp
    with True h cc rt show ?thesis
      by (auto simp: rbt_def invh_plug invc_plug color_of_plug)
  next
    case False
    with h cc rt show ?thesis by (simp add: del_inv_def invc_blacken)
  qed
qed

lemma unlink_inv_two:
  assumes t: "rbt (plug cs (Br l a k v c (plug ys (Br Lf y ky vy cy yr))))"
    and ys: "list_all is_InL ys"
  shows "if cy then rbt (plug (ys @ InR l y ky vy c # cs) yr)
         else del_inv (ys @ InR l y ky vy c # cs) yr"
proof -
  let ?Y = "Br Lf y ky vy cy yr"
  let ?cs' = "ys @ InR l y ky vy c # cs"
  from t have h: "invh l" "bh l = bh (plug ys ?Y)" "invh (plug ys ?Y)"
      "invh_ctx cs (if c then bh l else Suc (bh l))"
    and cc: "invc l" "invc (plug ys ?Y)" "c \<longrightarrow> \<not> color_of l \<and> \<not> color_of (plug ys ?Y)"
      "invc_ctx cs c"
    and rt: "cs = [] \<longrightarrow> \<not> c" "cs \<noteq> [] \<longrightarrow> \<not> fcolor (last cs)"
    by (auto simp: rbt_def invh_plug invc_plug color_of_plug simp del: plug.simps)
  from h(3) have hy: "invh yr" "bh yr = 0" "invh_ctx ys (bh ?Y)"
    unfolding invh_plug by auto
  from cc(2) have cy: "invc yr" "cy \<longrightarrow> \<not> color_of yr" "invc_ctx ys cy"
    unfolding invc_plug by auto
  have hctx: "invh_ctx ?cs' (bh ?Y)"
  proof -
    have "invh_ctx (InR l y ky vy c # cs) (bh (plug ys ?Y))"
      using h by (cases c) simp_all
    with invh_ctx_append[OF ys, of "InR l y ky vy c # cs" ?Y] hy(3) show ?thesis
      by (simp only: simp_thms)
  qed
  have c1: "invc_ctx ys False" using cy(3) by (rule invc_ctx_weaken)
  have top: "c \<longrightarrow> \<not> (if ys = [] then False else fcolor (last ys))"
    using cc(3) by (auto simp: color_of_plug)
  have cctx: "invc_ctx ?cs' False"
    unfolding invc_ctx_append using c1 top cc by simp
  have lst: "\<not> fcolor (last ?cs')" using rt by auto
  show ?thesis
  proof (cases cy)
    case True
    then have "bh ?Y = bh yr" using hy by simp
    with hctx have "invh_ctx ?cs' (bh yr)" by simp
    moreover have "\<not> color_of yr" using True cy by simp
    ultimately show ?thesis
      using True hy cy cctx lst
      unfolding rbt_def invh_plug invc_plug color_of_plug by simp
  next
    case False
    then have "bh ?Y = Suc (bh yr)" using hy by simp
    with hctx have "invh_ctx ?cs' (Suc (bh yr))" by simp
    then show ?thesis
      using False hy cy cctx lst by (simp add: del_inv_def invc_blacken)
  qed
qed

lemma filter_remove:
  "a \<notin> fst ` set xs \<Longrightarrow> a \<notin> fst ` set zs \<Longrightarrow>
   filter (\<lambda>e. fst e \<noteq> a) (xs @ (a, k, v) # zs) = xs @ zs"
proof -
  assume "a \<notin> fst ` set xs" "a \<notin> fst ` set zs"
  then have "filter (\<lambda>e. fst e \<noteq> a) xs = xs" "filter (\<lambda>e. fst e \<noteq> a) zs = zs"
    by (auto intro!: filter_True)
  then show ?thesis by simp
qed

lemma inorder_remove:
  assumes d: "distinct (addrs (plug cs (Br l a k v c r)))"
  shows "filter (\<lambda>e. fst e \<noteq> a) (inorder (plug cs (Br l a k v c r)))
         = before cs @ inorder l @ inorder r @ after cs"
proof -
  have "distinct (map fst ((before cs @ inorder l) @ (a, k, v) # (inorder r @ after cs)))"
    using d by (simp add: addrs_def inorder_plug)
  then have "a \<notin> fst ` set (before cs @ inorder l)" "a \<notin> fst ` set (inorder r @ after cs)"
    by (simp_all only: map_append distinct_append list.map fst_conv distinct.simps set_map[symmetric])
       auto
  from filter_remove[OF this, of k v] show ?thesis by (simp add: inorder_plug)
qed

section \<open>erase on a well-formed map\<close>

lemma erase_unlink_rep:
  assumes rep: "tree_rep s this (plug cs (Br l a k v c r))"
    and rb: "rbt (plug cs (Br l a k v c r))"
  shows "\<exists>yc cs' X s1. erase_unlink this a s = Some (yc, ptr_of X, cpar cs', s1)
           \<and> tree_rep s1 this (plug cs' X)
           \<and> unchanged_outside (set (addrs (plug cs (Br l a k v c r))) - {a}) this s s1
           \<and> inorder (plug cs' X) = filter (\<lambda>e. fst e \<noteq> a) (inorder (plug cs (Br l a k v c r)))
           \<and> (if yc then rbt (plug cs' X) else del_inv cs' X)"
proof -
  have d: "distinct (addrs (plug cs (Br l a k v c r)))" using rep by (simp add: tree_rep_def)
  note io = inorder_remove[OF d]
  show ?thesis
  proof (cases l)
    case Lf
    from erase_unlink_left_null[OF rep[unfolded Lf]] obtain s1 where
      e: "erase_unlink this a s = Some (c, ptr_of r, cpar cs, s1)" "tree_rep s1 this (plug cs r)"
         "unchanged_outside (set (addrs (plug cs (Br Lf a k v c r))) - {a}) this s s1" by blast
    have i: "if c then rbt (plug cs r) else del_inv cs r"
      using unlink_inv_left_null[OF rb[unfolded Lf]] .
    have "inorder (plug cs r) = filter (\<lambda>e. fst e \<noteq> a) (inorder (plug cs (Br l a k v c r)))"
      unfolding io by (simp add: Lf inorder_plug)
    with e i show ?thesis unfolding Lf by blast
  next
    case lb: (Br ll la lk lv lc lr)
    show ?thesis
    proof (cases r)
      case Lf
      from erase_unlink_right_null[OF rep[unfolded lb Lf]] obtain s1 where
        e: "erase_unlink this a s = Some (c, ptr_of l, cpar cs, s1)" "tree_rep s1 this (plug cs l)"
           "unchanged_outside (set (addrs (plug cs (Br l a k v c Lf))) - {a}) this s s1"
        unfolding lb by auto
      have i: "if c then rbt (plug cs l) else del_inv cs l"
        using unlink_inv_right_null[OF rb[unfolded Lf]] .
      have "inorder (plug cs l) = filter (\<lambda>e. fst e \<noteq> a) (inorder (plug cs (Br l a k v c r)))"
        unfolding io by (simp add: Lf inorder_plug)
      with e i show ?thesis unfolding Lf by blast
    next
      case rb': (Br rl ra rk rv rc rr)
      then have "r \<noteq> Lf" by simp
      from left_spine[OF this] obtain ys y ky vy cy yr where
        r: "r = plug ys (Br Lf y ky vy cy yr)" and ys: "list_all is_InL ys" by blast
      have l: "l \<noteq> Lf" using lb by simp
      let ?cs' = "ys @ InR l y ky vy c # cs"
      from erase_unlink_two[OF rep[unfolded r] l ys] obtain s1 where
        e: "erase_unlink this a s = Some (cy, ptr_of yr, cpar ?cs', s1)"
           "tree_rep s1 this (plug ?cs' yr)"
           "unchanged_outside (set (addrs (plug cs (Br l a k v c r))) - {a}) this s s1"
        unfolding r by blast
      have i: "if cy then rbt (plug ?cs' yr) else del_inv ?cs' yr"
        using unlink_inv_two[OF rb[unfolded r] ys] .
      have "inorder (plug ?cs' yr) = filter (\<lambda>e. fst e \<noteq> a) (inorder (plug cs (Br l a k v c r)))"
        unfolding io by (simp add: r plug_append inorder_plug before_InL[OF ys])
      with e i show ?thesis by blast
    qed
  qed
qed

lemma delete_count_rep:
  assumes rep: "tree_rep s this t" and a: "a \<notin> set (addrs t)" and live: "nodes s a \<noteq> None"
    and c: "get_count s this = Some n"
  shows "\<exists>s'. do { s \<leftarrow> delete_node a s; c \<leftarrow> get_count s this;
                    set_count this (if c = 0 then 2 ^ 64 - 1 else c - 1) s } = Some s'
           \<and> tree_rep s' this t \<and> nodes s' a = None
           \<and> get_count s' this = Some (if n = 0 then 2 ^ 64 - 1 else n - 1)
           \<and> (\<forall>b. b \<noteq> a \<longrightarrow> nodes s' b = nodes s b)
           \<and> (\<forall>m. m \<noteq> this \<longrightarrow> maps s' m = maps s m)
           \<and> next_addr s' = next_addr s"
  using assms
  by (auto simp: delete_node_def tree_rep_def rw_defs)

lemma erase_rep:
  assumes wf: "map_wf s this T" and a: "a \<in> set (addrs T)"
  shows "\<exists>s' T'. erase this \<lparr>owner = Some this, cur = Some a\<rparr> s = Some (None, s')
           \<and> map_wf s' this T'
           \<and> inorder T' = filter (\<lambda>e. fst e \<noteq> a) (inorder T)
           \<and> others_unchanged (set (addrs T)) this s s'
           \<and> next_addr s' = next_addr s
           \<and> nodes s' a = None"
proof -
  from wf have rep: "tree_rep s this T" and rb: "rbt T"
    and cnt: "get_count s this = Some (length (inorder T))"
    and bound: "\<forall>b \<in> set (addrs T). b < next_addr s" by (simp_all add: map_wf_def)
  from focus_exists[OF a, of "[]"] obtain cs l k v c r where T: "T = plug cs (Br l a k v c r)"
    by auto
  from erase_unlink_rep[OF rep[unfolded T] rb[unfolded T]] obtain yc cs' X s1 where
    u: "erase_unlink this a s = Some (yc, ptr_of X, cpar cs', s1)"
       "tree_rep s1 this (plug cs' X)"
       "unchanged_outside (set (addrs T) - {a}) this s s1"
       "inorder (plug cs' X) = filter (\<lambda>e. fst e \<noteq> a) (inorder T)"
       "if yc then rbt (plug cs' X) else del_inv cs' X"
    unfolding T by blast
  have sub: "set (addrs (plug cs' X)) \<subseteq> set (addrs T) - {a}"
    using u(4) by (auto simp: addrs_def)
  then have a1: "a \<notin> set (addrs (plug cs' X))" by auto
  have "nodes s a \<noteq> None" using rep unfolding T by (auto simp add: rep_defs)
  then have live: "nodes s1 a \<noteq> None" using u(3) by (simp add: unchanged_outside_def)
  have c1: "get_count s1 this = Some (length (inorder T))"
    using u(3) cnt by (simp add: unchanged_outside_def)
  from delete_count_rep[OF u(2) a1 live c1] obtain s2 where
    s2: "do { s \<leftarrow> delete_node a s1; c \<leftarrow> get_count s this;
              set_count this (if c = 0 then 2 ^ 64 - 1 else c - 1) s } = Some s2"
        "tree_rep s2 this (plug cs' X)" "nodes s2 a = None"
        "get_count s2 this = Some (if length (inorder T) = 0 then 2 ^ 64 - 1 else length (inorder T) - 1)"
        "\<forall>b. b \<noteq> a \<longrightarrow> nodes s2 b = nodes s1 b"
        "\<forall>m. m \<noteq> this \<longrightarrow> maps s2 m = maps s1 m"
        "next_addr s2 = next_addr s1" by blast
  have len: "length (inorder T) = Suc (length (inorder (plug cs' X)))"
    unfolding u(4) T using rep[unfolded T]
    by (simp add: inorder_remove tree_rep_def) (simp add: inorder_plug)
  have c2: "get_count s2 this = Some (length (inorder (plug cs' X)))"
    using s2(4) len by simp
  have "\<exists>s3 T3. (if \<not> yc then erase_fix this (ptr_of X) (cpar cs') s2 else Some s2) = Some s3
          \<and> tree_rep s3 this T3 \<and> rbt T3 \<and> inorder T3 = inorder (plug cs' X)
          \<and> unchanged_outside (set (addrs (plug cs' X))) this s2 s3"
  proof (cases yc)
    case True
    with u(5) s2(2) show ?thesis by auto
  next
    case False
    with u(5) have "del_inv cs' X" by simp
    from erase_fix_rep[OF s2(2) this] False show ?thesis by simp
  qed
  then obtain s3 T3 where s3:
    "(if \<not> yc then erase_fix this (ptr_of X) (cpar cs') s2 else Some s2) = Some s3"
    "tree_rep s3 this T3" "rbt T3" "inorder T3 = inorder (plug cs' X)"
    "unchanged_outside (set (addrs (plug cs' X))) this s2 s3" by blast
  from blacken_root_rep[OF s3(2)] obtain s4 where s4:
    "(get_root s3 this \<bind> (\<lambda>r. set_color_if r False s3)) = Some s4"
    "tree_rep s4 this (blacken T3)" "unchanged_outside (set (addrs T3)) this s3 s4" by blast
  have b3: "blacken T3 = T3" using s3(3) by (simp add: rbt_def blacken_black)
  have same3: "set (addrs T3) = set (addrs (plug cs' X))" using s3(4) by (simp add: addrs_def)
  have u24: "unchanged_outside (set (addrs (plug cs' X))) this s2 s4"
    using s3(5) s4(3) unfolding same3 by (rule unchanged_outside_same)
  have e: "erase this \<lparr>owner = Some this, cur = Some a\<rparr> s = Some (None, s4)"
  proof -
    from s2(1) obtain sd n where sd: "delete_node a s1 = Some sd" "get_count sd this = Some n"
      "set_count this (if n = 0 then 2 ^ 64 - 1 else n - 1) sd = Some s2"
      by (auto simp: bind_eq_Some_conv)
    from s4(1) obtain rt where rt: "get_root s3 this = Some rt" "set_color_if rt False s3 = Some s4"
      by (auto simp: bind_eq_Some_conv)
    show ?thesis
      using u(1) sd s3(1) rt by (simp add: erase_def)
  qed
  have wf4: "map_wf s4 this T3"
  proof -
    have "get_count s4 this = Some (length (inorder T3))"
      using u24 c2 s3(4) by (simp add: unchanged_outside_def)
    moreover have "next_addr s4 = next_addr s"
      using u24 s2(7) u(3) by (simp add: unchanged_outside_def)
    moreover have "set (addrs T3) \<subseteq> set (addrs T)" using same3 sub by auto
    ultimately show ?thesis
      using s4(2) s3(3) bound unfolding b3 by (auto simp: map_wf_def)
  qed
  have "nodes s4 b = nodes s b" if "b \<notin> set (addrs T)" for b
  proof -
    from that a have ba: "b \<noteq> a" by auto
    from that sub have "b \<notin> set (addrs (plug cs' X))" by auto
    with u24 have "nodes s4 b = nodes s2 b" by (simp add: unchanged_outside_def)
    also have "\<dots> = nodes s1 b" using s2(5) ba by simp
    also have "\<dots> = nodes s b" using u(3) that by (simp add: unchanged_outside_def)
    finally show ?thesis .
  qed
  moreover have "maps s4 m = maps s m" if "m \<noteq> this" for m
    using that u24 s2(6) u(3) by (simp add: unchanged_outside_def)
  ultimately have o: "others_unchanged (set (addrs T)) this s s4"
    by (simp add: others_unchanged_def)
  have n4: "next_addr s4 = next_addr s"
    using u24 s2(7) u(3) by (simp add: unchanged_outside_def)
  have a4: "nodes s4 a = None"
    using u24 a1 s2(3) by (simp add: unchanged_outside_def)
  from e wf4 o n4 a4 s3(4) u(4) show ?thesis by auto
qed


section \<open>Search trees after a removal\<close>

lemma bst_filter:
  "bst cmp t \<Longrightarrow> inorder t' = filter P (inorder t) \<Longrightarrow> bst cmp t'"
  by (simp add: bst_def keys_def filter_map sorted_wrt_filter sorted_wrt_map)

lemma erase_key_gone:
  assumes swo: "strict_weak_order cmp" and b: "bst cmp t"
    and mem: "(a, k, v) \<in> set (inorder t)" and eq: "eq_key cmp x k"
    and io: "inorder t' = filter (\<lambda>e. fst e \<noteq> a) (inorder t)"
  shows "tfind cmp x t' = None"
proof -
  have b': "bst cmp t'" using b io by (rule bst_filter)
  have "\<not> has_key cmp x t'"
  proof
    assume "has_key cmp x t'"
    then obtain b' k' v' where m': "(b', k', v') \<in> set (inorder t')" and e': "eq_key cmp x k'"
      by (auto simp: has_key_def keys_def)
    from m' io have "(b', k', v') \<in> set (inorder t)" "b' \<noteq> a" by auto
    from tfind_mem[OF swo b this(1) e'] tfind_mem[OF swo b mem eq] this(2)
    show False by simp
  qed
  with tfind_None_iff[OF swo b', of x] show ?thesis by simp
qed

lemma split_at_addr:
  assumes d: "distinct (addrs t)" and mem: "(a, k, v) \<in> set (inorder t)"
  shows "\<exists>xs ys. inorder t = xs @ (a, k, v) # ys
           \<and> filter (\<lambda>e. fst e \<noteq> a) (inorder t) = xs @ ys"
proof -
  from mem obtain xs ys where io: "inorder t = xs @ (a, k, v) # ys"
    by (auto simp: in_set_conv_decomp)
  from d have "distinct (map fst xs @ a # map fst ys)" by (simp add: addrs_def io)
  then have "a \<notin> fst ` set xs" "a \<notin> fst ` set ys" by auto
  from filter_remove[OF this, of k v] io show ?thesis by auto
qed


section \<open>Cursors of a map\<close>

lemma first_of_mem_addrs:
  "inorder t = xs @ ys \<Longrightarrow> first_of (map fst ys) = Some a \<Longrightarrow> a \<in> set (addrs t)"
  by (cases ys) (auto simp: addrs_def)

lemma cursor_of_rep:
  assumes rep: "tree_rep s this t" and c: "cursor_of s this it"
  shows "owner it = Some this \<and> (cur it = None \<or> (\<exists>a \<in> set (addrs t). cur it = Some a))"
  using c
proof (induction rule: cursor_of.induct)
  case (cursor_begin it)
  with map_begin_rep[OF rep] have it: "it = \<lparr>owner = Some this, cur = first_of (addrs t)\<rparr>" by simp
  show ?case
  proof (cases "addrs t")
    case Nil
    with it show ?thesis by simp
  next
    case (Cons a as)
    with it show ?thesis by simp
  qed
next
  case cursor_end
  show ?case by (simp add: map_end_def)
next
  case (cursor_inc it it')
  from cursor_inc.hyps(2) have ne: "cur it \<noteq> None"
    by (auto simp: iter_inc_def split: if_splits)
  with cursor_inc.IH obtain a where a: "a \<in> set (addrs t)" "it = \<lparr>owner = Some this, cur = Some a\<rparr>"
    by (cases it) auto
  from a(1) obtain k v where "(a, k, v) \<in> set (inorder t)" by (auto simp: addrs_def)
  then obtain xs ys where io: "inorder t = xs @ (a, k, v) # ys"
    by (auto simp: in_set_conv_decomp)
  from iter_inc_list[OF rep io] cursor_inc.hyps(2) a(2)
  have it': "it' = \<lparr>owner = Some this, cur = first_of (map fst ys)\<rparr>" by simp
  have "inorder t = (xs @ [(a, k, v)]) @ ys" using io by simp
  from first_of_mem_addrs[OF this] it' show ?case
    by (cases "first_of (map fst ys)") auto
qed

lemma cursor_of_node:
  assumes rep: "tree_rep s this t"
  shows "inorder t = xs @ ys \<Longrightarrow> cursor_of s this \<lparr>owner = Some this, cur = first_of (map fst ys)\<rparr>"
proof (induction xs arbitrary: ys rule: rev_induct)
  case Nil
  then have "first_of (map fst ys) = first_of (addrs t)" by (simp add: addrs_def)
  with map_begin_rep[OF rep] show ?case by (auto intro: cursor_begin)
next
  case (snoc e xs)
  obtain a k v where e: "e = (a, k, v)" by (cases e) auto
  from snoc.prems have io: "inorder t = xs @ (a, k, v) # ys" by (simp add: e)
  from snoc.IH[OF this] have "cursor_of s this \<lparr>owner = Some this, cur = Some a\<rparr>" by simp
  from cursor_inc[OF this iter_inc_list[OF rep io]] show ?case .
qed

lemma cursor_of_mem:
  assumes rep: "tree_rep s this t" and a: "a \<in> set (addrs t)"
  shows "cursor_of s this \<lparr>owner = Some this, cur = Some a\<rparr>"
proof -
  from a obtain k v where "(a, k, v) \<in> set (inorder t)" by (auto simp: addrs_def)
  then obtain xs ys where io: "inorder t = xs @ (a, k, v) # ys"
    by (auto simp: in_set_conv_decomp)
  from cursor_of_node[OF rep io] show ?thesis by simp
qed

section \<open>Maps built by insertions and removals\<close>

lemma tree_rep_live:
  assumes "tree_rep s this t" and "a \<in> set (addrs t)"
  shows "nodes s a \<noteq> None"
proof -
  from assms(2) obtain k v where "(a, k, v) \<in> set (inorder t)" by (auto simp: addrs_def)
  from tree_at_node[OF _ this, of "nodes s" None] assms(1) show ?thesis
    by (auto simp: tree_rep_def)
qed

lemma insert_total:
  assumes wf: "map_wf s this t"
  shows "\<exists>r s'. map_insert cmp this kv s = Some (r, s')"
proof (cases "tfind cmp (fst kv) t")
  case None
  from map_insert_new[OF wf None, of "snd kv"] show ?thesis by auto
next
  case (Some a)
  from wf have "tree_rep s this t" by (simp add: map_wf_def)
  from map_insert_existing[OF this Some, of "snd kv"] show ?thesis by auto
qed

lemma insert_keeps:
  assumes swo: "strict_weak_order cmp" and wf: "map_wf s this t" and b: "bst cmp t"
    and d: "dom (nodes s) = set (addrs t)"
    and i: "map_insert cmp this kv s = Some (r, s')"
  shows "\<exists>t'. map_wf s' this t' \<and> bst cmp t' \<and> dom (nodes s') = set (addrs t')"
proof (cases "tfind cmp (fst kv) t")
  case (Some a)
  from wf have "tree_rep s this t" by (simp add: map_wf_def)
  from map_insert_existing[OF this Some, of "snd kv"] i have "s' = s" by simp
  with wf b d show ?thesis by auto
next
  case None
  let ?cs = "tpath cmp (fst kv) t []"
  from map_insert_new[OF wf None, of "snd kv"] i obtain t' where
    n: "map_wf s' this t'"
       "inorder t' = before ?cs @ (next_addr s, fst kv, snd kv) # after ?cs"
       "others_unchanged (insert (next_addr s) (set (addrs t))) this s s'" by auto
  have io: "inorder t = before ?cs @ after ?cs"
    using tpath_plug[OF None, of "[]"] inorder_plug[of ?cs Lf] by simp
  have b': "bst cmp t'"
    using bst_insert[OF swo b None, of "next_addr s" "snd kv"] by (simp add: bst_def keys_def n(2))
  have a': "set (addrs t') = insert (next_addr s) (set (addrs t))"
    by (auto simp: addrs_def n(2) io)
  from n(1) have rep': "tree_rep s' this t'" by (simp add: map_wf_def)
  have "dom (nodes s') = set (addrs t')"
  proof (intro set_eqI iffI)
    fix a assume "a \<in> dom (nodes s')"
    show "a \<in> set (addrs t')"
    proof (rule ccontr)
      assume "a \<notin> set (addrs t')"
      with a' n(3) have "nodes s' a = nodes s a" "a \<notin> set (addrs t)"
        by (auto simp: others_unchanged_def)
      moreover from this(2) have "nodes s a = None" unfolding d[symmetric] by (simp add: domIff)
      ultimately show False using \<open>a \<in> dom (nodes s')\<close> by (simp add: domIff)
    qed
  next
    fix a assume "a \<in> set (addrs t')"
    from tree_rep_live[OF rep' this] show "a \<in> dom (nodes s')" by auto
  qed
  with n(1) b' show ?thesis by blast
qed

lemma erase_total:
  assumes wf: "map_wf s this t" and c: "owner pos = Some this \<longrightarrow> cursor_of s this pos"
  shows "\<exists>e s'. erase this pos s = Some (e, s')"
proof (cases "owner pos \<noteq> Some this \<or> cur pos = None")
  case True
  then show ?thesis by (simp add: erase_def)
next
  case False
  from wf have rep: "tree_rep s this t" by (simp add: map_wf_def)
  from False c cursor_of_rep[OF rep, of pos] obtain a where
    a: "a \<in> set (addrs t)" "pos = \<lparr>owner = Some this, cur = Some a\<rparr>" by (cases pos) auto
  from erase_rep[OF wf a(1)] a(2) show ?thesis by auto
qed

lemma erase_keeps:
  assumes wf: "map_wf s this t" and b: "bst cmp t"
    and d: "dom (nodes s) = set (addrs t)"
    and c: "owner pos = Some this \<longrightarrow> cursor_of s this pos"
    and e: "erase this pos s = Some (r, s')"
  shows "\<exists>t'. map_wf s' this t' \<and> bst cmp t' \<and> dom (nodes s') = set (addrs t')"
proof (cases "owner pos \<noteq> Some this \<or> cur pos = None")
  case True
  with e have "s' = s" by (simp add: erase_def)
  with wf b d show ?thesis by auto
next
  case False
  from wf have rep: "tree_rep s this t" by (simp add: map_wf_def)
  from False c cursor_of_rep[OF rep, of pos] obtain a where
    a: "a \<in> set (addrs t)" "pos = \<lparr>owner = Some this, cur = Some a\<rparr>" by (cases pos) auto
  from erase_rep[OF wf a(1)] e a(2) obtain t' where
    n: "map_wf s' this t'" "inorder t' = filter (\<lambda>e. fst e \<noteq> a) (inorder t)"
       "others_unchanged (set (addrs t)) this s s'" "nodes s' a = None" by auto
  have b': "bst cmp t'" using b n(2) by (rule bst_filter)
  have a': "set (addrs t') = set (addrs t) - {a}" by (auto simp: addrs_def n(2))
  from n(1) have rep': "tree_rep s' this t'" by (simp add: map_wf_def)
  have "dom (nodes s') = set (addrs t')"
  proof (intro set_eqI iffI)
    fix x assume x: "x \<in> dom (nodes s')"
    show "x \<in> set (addrs t')"
    proof (rule ccontr)
      assume nx: "x \<notin> set (addrs t')"
      from x n(4) have "x \<noteq> a" by auto
      with nx a' have "x \<notin> set (addrs t)" by simp
      with n(3) have "nodes s' x = nodes s x" by (simp add: others_unchanged_def)
      moreover from \<open>x \<notin> set (addrs t)\<close> have "nodes s x = None"
        unfolding d[symmetric] by (simp add: domIff)
      ultimately show False using x by (simp add: domIff)
    qed
  next
    fix x assume "x \<in> set (addrs t')"
    from tree_rep_live[OF rep' this] show "x \<in> dom (nodes s')" by auto
  qed
  with n(1) b' show ?thesis by blast
qed

lemma built_inv:
  assumes swo: "strict_weak_order cmp" and b: "built cmp this s"
  shows "\<exists>t. map_wf s this t \<and> bst cmp t \<and> dom (nodes s) = set (addrs t)"
  using b
proof (induction rule: built.induct)
  case built_new
  have "dom (nodes (map_ctor this (empty_world :: ('a, 'b) world))) = set (addrs (Lf :: ('a, 'b) tree))"
    by (simp add: map_ctor_def empty_world_def)
  with empty_map_wf[of this] show ?case by (intro exI[of _ Lf]) simp
next
  case (built_insert s kv r s')
  then obtain t where "map_wf s this t" "bst cmp t" "dom (nodes s) = set (addrs t)" by blast
  from insert_keeps[OF swo this built_insert.hyps(2)] show ?case .
next
  case (built_erase s pos e s')
  then obtain t where "map_wf s this t" "bst cmp t" "dom (nodes s) = set (addrs t)" by blast
  from erase_keeps[OF this built_erase.hyps(2,3)] show ?case .
qed

lemma sorted_no_equiv:
  assumes "sorted_wrt cmp ks" and "i < j" and "j < length ks"
  shows "\<not> eq_key cmp (ks ! i) (ks ! j)"
  using sorted_wrt_nth_less[OF assms] by (simp add: eq_key_def)


section \<open>The order of a traversal\<close>

text \<open>
  C2. Let the ordering be a strict weak ordering and let the store be one that insertions
  and removals built from the empty map at \<open>this\<close>. Then the live nodes of the store are
  the nodes of a tree \<open>t\<close> that the map holds, each once; the traversal
  \<^verbatim>\<open>for (it = begin(); it != end(); ++it)\<close> returns and visits the entries of \<open>t\<close> in
  order, one for each live node; their keys increase strictly under the ordering, so no
  two of them are equivalent; and \<^verbatim>\<open>size()\<close> is the number of entries visited. Every
  further insertion and every further removal at a cursor of the map returns.
\<close>

theorem traversal_sorted:
  assumes swo: "strict_weak_order cmp" and b: "built cmp this s"
  shows "\<exists>t. tree_rep s this t \<and> dom (nodes s) = set (addrs t) \<and> distinct (addrs t)
       \<and> entries this s = Some (Inr (items t))
       \<and> length (items t) = card (dom (nodes s))
       \<and> sorted_wrt cmp (map fst (items t))
       \<and> (\<forall>i j. i < j \<and> j < length (items t)
             \<longrightarrow> \<not> eq_key cmp (fst (items t ! i)) (fst (items t ! j)))
       \<and> map_size this s = Some (length (items t))
       \<and> (\<forall>kv. \<exists>r s'. map_insert cmp this kv s = Some (r, s'))
       \<and> (\<forall>pos. (owner pos = Some this \<longrightarrow> cursor_of s this pos)
             \<longrightarrow> (\<exists>e s'. erase this pos s = Some (e, s')))"
proof -
  from built_inv[OF swo b] obtain t where
    wf: "map_wf s this t" and bt: "bst cmp t" and d: "dom (nodes s) = set (addrs t)" by blast
  from wf have rep: "tree_rep s this t" and cnt: "get_count s this = Some (length (inorder t))"
    by (simp_all add: map_wf_def)
  from rep have dist: "distinct (addrs t)" by (simp add: tree_rep_def)
  have ks: "map fst (items t) = keys t" by (simp add: items_def keys_def)
  have so: "sorted_wrt cmp (map fst (items t))" using bt unfolding ks bst_def .
  have ne: "\<not> eq_key cmp (fst (items t ! i)) (fst (items t ! j))"
    if "i < j" "j < length (items t)" for i j
  proof -
    from that have "j < length (map fst (items t))" "i < length (items t)" by simp_all
    with sorted_no_equiv[OF so that(1) this(1)] that show ?thesis by simp
  qed
  have len: "length (items t) = card (dom (nodes s))"
    unfolding d using distinct_card[OF dist] by (simp add: items_def addrs_def)
  have sz: "map_size this s = Some (length (items t))"
    using cnt by (simp add: map_size_def items_def)
  have ti: "\<exists>r s'. map_insert cmp this kv s = Some (r, s')" for kv
    using insert_total[OF wf] .
  have te: "\<exists>e s'. erase this pos s = Some (e, s')"
    if "owner pos = Some this \<longrightarrow> cursor_of s this pos" for pos
    using erase_total[OF wf that] .
  from rep d dist entries_rep[OF rep] len so ne sz ti te show ?thesis
    by (intro exI[of _ t]) blast
qed

theorem traversal_sorted_witness:
  "\<exists>s :: (nat, nat) world. built (<) 0 s
     \<and> entries 0 s = Some (Inr [(5, 50), (8, 80)])
     \<and> sorted_wrt (<) (map fst [(5::nat, 50::nat), (8, 80)])
     \<and> map_size 0 s = Some 2
     \<and> card (dom (nodes s)) = 2"
proof -
  have "do { (r1, s1) \<leftarrow> map_insert (<) 0 (5, 50) (map_ctor 0 (empty_world :: (nat, nat) world));
             (r2, s2) \<leftarrow> map_insert (<) 0 (3, 30) s1;
             (r3, s3) \<leftarrow> map_insert (<) 0 (8, 80) s2;
             bg \<leftarrow> map_begin 0 s3;
             (e, s4) \<leftarrow> erase 0 bg s3;
             en \<leftarrow> entries 0 s4;
             Some (e, en) } = Some (None, Inr [(5, 50), (8, 80)])"
    by code_simp
  then obtain r1 s1 r2 s2 r3 s3 bg e s4 where
    st: "map_insert (<) 0 (5, 50) (map_ctor 0 (empty_world :: (nat, nat) world)) = Some (r1, s1)"
        "map_insert (<) 0 (3, 30) s1 = Some (r2, s2)"
        "map_insert (<) 0 (8, 80) s2 = Some (r3, s3)"
        "map_begin 0 s3 = Some bg"
        "erase 0 bg s3 = Some (e, s4)"
        "entries 0 s4 = Some (Inr [(5, 50), (8, 80)])"
    by (auto simp: bind_eq_Some_conv)
  have b3: "built (<) 0 s3"
    using built_insert[OF built_insert[OF built_insert[OF built_new st(1)] st(2)] st(3)] .
  have "owner bg = Some 0 \<longrightarrow> cursor_of s3 0 bg" using cursor_begin[OF st(4)] by simp
  from built_erase[OF b3 this st(5)] have b4: "built (<) 0 s4" .
  from traversal_sorted[OF swo_less_nat b4] obtain t where
    t: "entries 0 s4 = Some (Inr (items t))" "length (items t) = card (dom (nodes s4))"
    "sorted_wrt (<) (map fst (items t))" "map_size 0 s4 = Some (length (items t))"
    by blast
  from t(1) st(6) have "items t = [(5, 50), (8, 80)]" by simp
  with t b4 st(6) show ?thesis by (intro exI[of _ s4]) simp
qed


section \<open>Inserting a key that is already there\<close>

text \<open>
  C3. Let the map at \<open>this\<close> be well formed and hold the search tree \<open>t\<close>, and let the
  entry \<open>(k, v0)\<close> at node \<open>a\<close> have a key equivalent to \<open>x\<close>. Then \<^verbatim>\<open>insert({x, v})\<close>
  returns \<^verbatim>\<open>inserted = false\<close> and a cursor at \<open>a\<close>, which still dereferences to
  \<open>(k, v0)\<close>; the store it leaves is the store it found, so the size, the value stored
  for the key and every other entry are as they were.
\<close>

theorem insert_existing_key:
  assumes "strict_weak_order cmp" and "map_wf s this t" and "bst cmp t"
    and "(a, k, v0) \<in> set (inorder t)" and "eq_key cmp x k"
  shows "map_insert cmp this (x, v) s = Some ((\<lparr>owner = Some this, cur = Some a\<rparr>, False), s)
         \<and> iter_deref s \<lparr>owner = Some this, cur = Some a\<rparr> = Some (Inr (k, v0))
         \<and> map_size this s = Some (length (inorder t))"
proof -
  from assms(2) have rep: "tree_rep s this t" by (simp add: map_wf_def)
  have "tfind cmp x t = Some a"
    using tfind_mem[OF assms(1,3,4,5)] .
  from map_insert_existing[OF rep this, of v] rep_iter_deref[OF rep assms(4), of "Some this"] assms(2)
  show ?thesis by (simp add: map_size_def map_wf_def)
qed

theorem insert_existing_key_witness:
  "map_insert (<) 0 (3, 99) demo_world = Some ((\<lparr>owner = Some 0, cur = Some 1\<rparr>, False), demo_world)
   \<and> iter_deref demo_world \<lparr>owner = Some 0, cur = Some 1\<rparr> = Some (Inr (3, 30))
   \<and> map_size 0 demo_world = Some 3"
  using insert_existing_key[OF swo_less_nat demo_map_wf demo_bst, of 1 3 30 3 99]
  by (simp add: demo_tree_def eq_key_def)


section \<open>Erasing, then looking the key up\<close>

text \<open>
  C4. Let the map at \<open>this\<close> be well formed and hold the search tree \<open>t\<close>, and let the
  entry \<open>(k, v)\<close> at node \<open>a\<close> have a key equivalent to \<open>x\<close>; \<^verbatim>\<open>find(x)\<close> returns the
  cursor at \<open>a\<close>. Then \<^verbatim>\<open>erase\<close> of that cursor returns without a throw, and in the store
  it leaves \<^verbatim>\<open>find(x)\<close> is \<^verbatim>\<open>end()\<close>, \<^verbatim>\<open>count(x)\<close> is 0, \<^verbatim>\<open>at(x)\<close> throws
  \<^verbatim>\<open>index_out_of_bound\<close>, and \<^verbatim>\<open>size()\<close> is one less than it was.
\<close>

theorem erase_then_lookup:
  assumes swo: "strict_weak_order cmp" and wf: "map_wf s this t" and b: "bst cmp t"
    and mem: "(a, k, v) \<in> set (inorder t)" and eq: "eq_key cmp x k"
  shows "map_find cmp this x s = Some \<lparr>owner = Some this, cur = Some a\<rparr>
       \<and> (\<exists>s' n. erase this \<lparr>owner = Some this, cur = Some a\<rparr> s = Some (None, s')
             \<and> map_find cmp this x s' = Some (map_end this)
             \<and> count cmp this x s' = Some 0
             \<and> at cmp this x s' = Some (Inl Index_out_of_bound)
             \<and> map_size this s = Some (Suc n) \<and> map_size this s' = Some n)"
proof -
  from wf have rep: "tree_rep s this t" and cnt: "get_count s this = Some (length (inorder t))"
    by (simp_all add: map_wf_def)
  have f: "map_find cmp this x s = Some \<lparr>owner = Some this, cur = Some a\<rparr>"
    using map_find_rep[OF rep, of cmp x] tfind_mem[OF swo b mem eq] by simp
  from mem have a: "a \<in> set (addrs t)" by (force simp: addrs_def)
  from erase_rep[OF wf a] obtain s' t' where
    e: "erase this \<lparr>owner = Some this, cur = Some a\<rparr> s = Some (None, s')"
       "map_wf s' this t'" "inorder t' = filter (\<lambda>e. fst e \<noteq> a) (inorder t)" by blast
  from e(2) have rep': "tree_rep s' this t'"
    and cnt': "get_count s' this = Some (length (inorder t'))" by (simp_all add: map_wf_def)
  have n: "tfind cmp x t' = None" using erase_key_gone[OF swo b mem eq e(3)] .
  have d: "distinct (addrs t)" using rep by (simp add: tree_rep_def)
  from split_at_addr[OF d mem] obtain xs ys where
    "inorder t = xs @ (a, k, v) # ys" "inorder t' = xs @ ys" unfolding e(3) by blast
  then have len: "length (inorder t) = Suc (length (inorder t'))" by simp
  have "map_find cmp this x s' = Some (map_end this)" "count cmp this x s' = Some 0"
    "at cmp this x s' = Some (Inl Index_out_of_bound)"
    using map_find_rep[OF rep', of cmp x] count_rep[OF rep', of cmp x] at_rep[OF rep', of cmp x] n
    by (simp_all add: map_end_def)
  moreover have "map_size this s = Some (Suc (length (inorder t')))"
    "map_size this s' = Some (length (inorder t'))"
    using cnt cnt' len by (simp_all add: map_size_def)
  ultimately show ?thesis using f e(1) by blast
qed

theorem erase_then_lookup_witness:
  "map_find (<) 0 3 demo_world = Some \<lparr>owner = Some 0, cur = Some 1\<rparr>
   \<and> (\<exists>s'. erase 0 \<lparr>owner = Some 0, cur = Some 1\<rparr> demo_world = Some (None, s')
         \<and> map_find (<) 0 3 s' = Some (map_end 0)
         \<and> count (<) 0 3 s' = Some 0
         \<and> at (<) 0 3 s' = Some (Inl Index_out_of_bound)
         \<and> map_size 0 demo_world = Some 3 \<and> map_size 0 s' = Some 2)"
proof -
  have m: "(1, 3, 30) \<in> set (inorder demo_tree)" by (simp add: demo_tree_def)
  have e: "eq_key (<) (3::nat) 3" by (simp add: eq_key_def)
  have c: "map_size 0 demo_world = Some 3"
    by (simp add: map_size_def get_count_def demo_world_def)
  from erase_then_lookup[OF swo_less_nat demo_map_wf demo_bst m e] c
  show ?thesis by auto
qed


section \<open>Index access\<close>

text \<open>
  C5. Let the map at \<open>this\<close> be well formed and hold the search tree \<open>t\<close>.
  If \<open>t\<close> has a key equivalent to \<open>x\<close>, \<^verbatim>\<open>operator[](x)\<close> returns a reference to the
  value stored with it and leaves the store as it found it. If it has none, the operation
  returns a reference into a node \<open>z\<close> that was not part of the map before and now
  holds the key \<open>x\<close> and the value \<open>dflt\<close>: the nodes of the map, in traversal order, are
  the old ones with \<open>(z, x, dflt)\<close> put in at its place, \<^verbatim>\<open>find(x)\<close> and \<^verbatim>\<open>at(x)\<close> now
  lead to \<open>z\<close>, the map is well formed again, \<^verbatim>\<open>size()\<close> has grown by one and
  \<^verbatim>\<open>count(x)\<close> is 1. The look-ups \<^verbatim>\<open>at\<close>, the const \<^verbatim>\<open>operator[]\<close>, \<^verbatim>\<open>count\<close> and
  \<^verbatim>\<open>find\<close> of the absent key only report its absence (they return no store: the source
  writes nothing in them).
\<close>

theorem index_access_spec:
  assumes swo: "strict_weak_order cmp" and wf: "map_wf s this t" and b: "bst cmp t"
  shows "(has_key cmp x t \<longrightarrow>
            (\<exists>a k v0. (a, k, v0) \<in> set (inorder t) \<and> eq_key cmp x k
               \<and> index_access cmp dflt this x s = Some (a, s) \<and> get_second s a = Some v0))
       \<and> (\<not> has_key cmp x t \<longrightarrow>
            (\<exists>z s' t' xs ys. index_access cmp dflt this x s = Some (z, s')
               \<and> map_wf s' this t' \<and> bst cmp t'
               \<and> z \<notin> set (addrs t)
               \<and> inorder t = xs @ ys \<and> inorder t' = xs @ (z, x, dflt) # ys
               \<and> items t = map snd xs @ map snd ys
               \<and> items t' = map snd xs @ (x, dflt) # map snd ys
               \<and> get_key s' z = Some x
               \<and> get_second s' z = Some dflt
               \<and> iter_deref s' \<lparr>owner = Some this, cur = Some z\<rparr> = Some (Inr (x, dflt))
               \<and> map_find cmp this x s' = Some \<lparr>owner = Some this, cur = Some z\<rparr>
               \<and> at cmp this x s' = Some (Inr z)
               \<and> map_size this s = Some (length (items t))
               \<and> map_size this s' = Some (Suc (length (items t)))
               \<and> count cmp this x s' = Some 1
               \<and> at cmp this x s = Some (Inl Index_out_of_bound)
               \<and> index_const cmp this x s = Some (Inl Index_out_of_bound)
               \<and> count cmp this x s = Some 0
               \<and> map_find cmp this x s = Some (map_end this)))"
proof -
  from wf have rep: "tree_rep s this t" by (simp add: map_wf_def)
  have present: "\<exists>a k v0. (a, k, v0) \<in> set (inorder t) \<and> eq_key cmp x k
               \<and> index_access cmp dflt this x s = Some (a, s) \<and> get_second s a = Some v0"
    if h: "has_key cmp x t"
  proof -
    from h tfind_None_iff[OF swo b, of x] obtain a where a: "tfind cmp x t = Some a" by auto
    from tfind_Some_mem[OF a] obtain k v0 where m: "(a, k, v0) \<in> set (inorder t)" "eq_key cmp x k"
      by blast
    from index_access_existing[OF rep a, of dflt] rep_get_second[OF rep m(1)] m
    show ?thesis by blast
  qed
  have absent: "\<exists>z s' t' xs ys. index_access cmp dflt this x s = Some (z, s')
               \<and> map_wf s' this t' \<and> bst cmp t'
               \<and> z \<notin> set (addrs t)
               \<and> inorder t = xs @ ys \<and> inorder t' = xs @ (z, x, dflt) # ys
               \<and> items t = map snd xs @ map snd ys
               \<and> items t' = map snd xs @ (x, dflt) # map snd ys
               \<and> get_key s' z = Some x
               \<and> get_second s' z = Some dflt
               \<and> iter_deref s' \<lparr>owner = Some this, cur = Some z\<rparr> = Some (Inr (x, dflt))
               \<and> map_find cmp this x s' = Some \<lparr>owner = Some this, cur = Some z\<rparr>
               \<and> at cmp this x s' = Some (Inr z)
               \<and> map_size this s = Some (length (items t))
               \<and> map_size this s' = Some (Suc (length (items t)))
               \<and> count cmp this x s' = Some 1
               \<and> at cmp this x s = Some (Inl Index_out_of_bound)
               \<and> index_const cmp this x s = Some (Inl Index_out_of_bound)
               \<and> count cmp this x s = Some 0
               \<and> map_find cmp this x s = Some (map_end this)"
    if h: "\<not> has_key cmp x t"
  proof -
    from h tfind_None_iff[OF swo b, of x] have n: "tfind cmp x t = None" by simp
    let ?cs = "tpath cmp x t []"
    let ?z = "next_addr s"
    from index_access_new[OF wf n, of dflt] obtain s' t' where
      i: "index_access cmp dflt this x s = Some (?z, s')" "map_wf s' this t'"
         "inorder t' = before ?cs @ (?z, x, dflt) # after ?cs" by blast
    have io: "inorder t = before ?cs @ after ?cs"
      using tpath_plug[OF n, of "[]"] inorder_plug[of ?cs Lf] by simp
    from i(2) have rep': "tree_rep s' this t'" by (simp add: map_wf_def)
    have b': "bst cmp t'"
      using bst_insert[OF swo b n, of ?z dflt] i(3) by (simp add: bst_def keys_def)
    have mem: "(?z, x, dflt) \<in> set (inorder t')" using i(3) by simp
    have eq: "eq_key cmp x x" using swo_irrefl[OF swo] by (simp add: eq_key_def)
    have f': "tfind cmp x t' = Some ?z"
      using tfind_mem[OF swo b' mem eq] .
    have fresh: "?z \<notin> set (addrs t)" using wf by (auto simp: map_wf_def)
    have it: "items t = map snd (before ?cs) @ map snd (after ?cs)"
      "items t' = map snd (before ?cs) @ (x, dflt) # map snd (after ?cs)"
      using io i(3) by (simp_all add: items_def)
    have sz: "map_size this s = Some (length (items t))"
      "map_size this s' = Some (Suc (length (items t)))"
      using wf i(2,3) io by (simp_all add: map_wf_def map_size_def items_def)
    have new: "count cmp this x s' = Some 1"
      "map_find cmp this x s' = Some \<lparr>owner = Some this, cur = Some ?z\<rparr>"
      "at cmp this x s' = Some (Inr ?z)"
      using count_rep[OF rep', of cmp x] map_find_rep[OF rep', of cmp x] at_rep[OF rep', of cmp x] f'
      by simp_all
    have rd: "get_key s' ?z = Some x" "get_second s' ?z = Some dflt"
      "iter_deref s' \<lparr>owner = Some this, cur = Some ?z\<rparr> = Some (Inr (x, dflt))"
      using rep_get_key[OF rep' mem] rep_get_second[OF rep' mem]
        rep_iter_deref[OF rep' mem, of "Some this"] by simp_all
    have old: "at cmp this x s = Some (Inl Index_out_of_bound)"
      "index_const cmp this x s = Some (Inl Index_out_of_bound)"
      "count cmp this x s = Some 0" "map_find cmp this x s = Some (map_end this)"
      using at_rep[OF rep, of cmp x] count_rep[OF rep, of cmp x] map_find_rep[OF rep, of cmp x] n
      by (simp_all add: map_end_def index_const_def)
    show ?thesis
      apply (rule exI[of _ ?z], rule exI[of _ s'], rule exI[of _ t'],
             rule exI[of _ "before ?cs"], rule exI[of _ "after ?cs"])
      using i b' fresh io it sz new rd old apply simp
      done
  qed
  from present absent show ?thesis by blast
qed

theorem index_access_spec_witness:
  "index_access (<) 80 0 8 demo_world = Some (2, demo_world)
   \<and> get_second demo_world 2 = Some 80
   \<and> (\<exists>z s'. index_access (<) 80 0 7 demo_world = Some (z, s')
         \<and> get_key s' z = Some 7 \<and> get_second s' z = Some 80
         \<and> map_find (<) 0 7 s' = Some \<lparr>owner = Some 0, cur = Some z\<rparr>
         \<and> map_size 0 s' = Some 4 \<and> count (<) 0 7 s' = Some 1)
   \<and> count (<) 0 7 demo_world = Some 0"
proof -
  have h8: "has_key (<) (8::nat) demo_tree" and h7: "\<not> has_key (<) (7::nat) demo_tree"
    by (auto simp: has_key_def demo_tree_def keys_def eq_key_def)
  from index_access_spec[OF swo_less_nat demo_map_wf demo_bst, of 8 80] h8
  obtain a k v0 where 1: "(a, k, v0) \<in> set (inorder demo_tree)" "eq_key (<) 8 k"
    "index_access (<) 80 0 8 demo_world = Some (a, demo_world)" "get_second demo_world a = Some v0"
    by blast
  from 1(1,2) have "a = 2" "v0 = 80" by (auto simp: demo_tree_def eq_key_def)
  with 1 have "index_access (<) 80 0 8 demo_world = Some (2, demo_world)"
    "get_second demo_world 2 = Some 80" by simp_all
  moreover
  from index_access_spec[OF swo_less_nat demo_map_wf demo_bst, of 7 80] h7
  have "\<exists>z s'. index_access (<) 80 0 7 demo_world = Some (z, s')
         \<and> get_key s' z = Some 7 \<and> get_second s' z = Some 80
         \<and> map_find (<) 0 7 s' = Some \<lparr>owner = Some 0, cur = Some z\<rparr>
         \<and> map_size 0 s' = Some 4 \<and> count (<) 0 7 s' = Some 1"
    "count (<) 0 7 demo_world = Some 0"
    by (auto simp: demo_tree_def)
  ultimately show ?thesis by simp
qed


section \<open>Cursors at the boundaries\<close>

text \<open>
  C6, as the code has it. Let the map at \<open>this\<close> be well formed and hold the search tree
  \<open>t\<close>; it is empty exactly when \<open>t\<close> is. Dereferencing \<^verbatim>\<open>end()\<close> with \<^verbatim>\<open>operator*\<close>
  and incrementing \<^verbatim>\<open>end()\<close> throw \<^verbatim>\<open>invalid_iterator\<close>; \<^verbatim>\<open>operator->\<close> on
  \<^verbatim>\<open>end()\<close> is \<^verbatim>\<open>noexcept\<close>, makes no test and hands back the null pointer it holds.
  On an empty map decrementing \<^verbatim>\<open>end()\<close> throws. On a non-empty map decrementing
  \<^verbatim>\<open>begin()\<close> throws, and decrementing \<^verbatim>\<open>end()\<close> yields a cursor at an entry whose
  key no key of the map exceeds.
\<close>

theorem cursor_boundaries:
  assumes swo: "strict_weak_order cmp" and wf: "map_wf s this t" and b: "bst cmp t"
  shows "iter_deref s (map_end this) = Some (Inl Invalid_iterator)
       \<and> iter_arrow (map_end this) = Inr None
       \<and> iter_inc s (map_end this) = Some (Inl Invalid_iterator)
       \<and> map_empty this s = Some (t = Lf)
       \<and> (t = Lf \<longrightarrow> iter_dec s (map_end this) = Some (Inl Invalid_iterator))
       \<and> (t \<noteq> Lf \<longrightarrow>
            (\<exists>bg. map_begin this s = Some bg \<and> cur bg \<noteq> None
                \<and> iter_dec s bg = Some (Inl Invalid_iterator))
          \<and> (\<exists>a k v. iter_dec s (map_end this) = Some (Inr \<lparr>owner = Some this, cur = Some a\<rparr>)
                \<and> iter_deref s \<lparr>owner = Some this, cur = Some a\<rparr> = Some (Inr (k, v))
                \<and> (a, k, v) \<in> set (inorder t)
                \<and> (\<forall>k' \<in> set (keys t). \<not> cmp k k')))"
proof -
  from wf have rep: "tree_rep s this t" and cnt: "get_count s this = Some (length (inorder t))"
    by (simp_all add: map_wf_def)
  have 1: "iter_deref s (map_end this) = Some (Inl Invalid_iterator)"
    "iter_inc s (map_end this) = Some (Inl Invalid_iterator)"
    "iter_arrow (map_end this) = Inr None"
    by (simp_all add: iter_deref_def iter_inc_def iter_arrow_def map_end_def)
  have 2: "map_empty this s = Some (t = Lf)"
    using cnt by (cases t) (simp_all add: map_empty_def)
  have 3: "t = Lf \<longrightarrow> iter_dec s (map_end this) = Some (Inl Invalid_iterator)"
    using iter_dec_end[OF rep] by simp
  have 4: "\<exists>bg. map_begin this s = Some bg \<and> cur bg \<noteq> None
                \<and> iter_dec s bg = Some (Inl Invalid_iterator)" if ne: "t \<noteq> Lf"
    using map_begin_rep[OF rep] iter_dec_begin[OF rep ne] ne by simp
  have 5: "\<exists>a k v. iter_dec s (map_end this) = Some (Inr \<lparr>owner = Some this, cur = Some a\<rparr>)
                \<and> iter_deref s \<lparr>owner = Some this, cur = Some a\<rparr> = Some (Inr (k, v))
                \<and> (a, k, v) \<in> set (inorder t)
                \<and> (\<forall>k' \<in> set (keys t). \<not> cmp k k')" if ne: "t \<noteq> Lf"
  proof -
    from ne have "inorder t \<noteq> []" by (cases t) auto
    then obtain xs e where io: "inorder t = xs @ [e]" by (cases "inorder t" rule: rev_cases) auto
    obtain a k v where e: "e = (a, k, v)" by (cases e) auto
    have l: "last_of (addrs t) = Some a" unfolding addrs_def io e by simp
    have m: "(a, k, v) \<in> set (inorder t)" unfolding io e by simp
    from iter_dec_end[OF rep] ne l
    have "iter_dec s (map_end this) = Some (Inr \<lparr>owner = Some this, cur = Some a\<rparr>)" by simp
    moreover note rep_iter_deref[OF rep m, of "Some this"] m
      bst_last_max[OF swo b io[unfolded e]]
    ultimately show ?thesis by blast
  qed
  from 1 2 3 4 5 show ?thesis by blast
qed

theorem cursor_boundaries_witness:
  "iter_deref demo_world (map_end 0) = Some (Inl Invalid_iterator)
   \<and> iter_arrow (map_end 0) = Inr None
   \<and> iter_inc demo_world (map_end 0) = Some (Inl Invalid_iterator)
   \<and> (\<exists>bg. map_begin 0 demo_world = Some bg \<and> iter_dec demo_world bg = Some (Inl Invalid_iterator))
   \<and> iter_dec demo_world (map_end 0) = Some (Inr \<lparr>owner = Some 0, cur = Some 2\<rparr>)
   \<and> iter_dec (map_ctor 0 (empty_world :: (nat, nat) world)) (map_end 0) = Some (Inl Invalid_iterator)"
proof -
  have "demo_tree \<noteq> Lf" by (simp add: demo_tree_def)
  with cursor_boundaries[OF swo_less_nat demo_map_wf demo_bst]
  have "iter_deref demo_world (map_end 0) = Some (Inl Invalid_iterator)"
    "iter_arrow (map_end 0) = Inr None"
    "iter_inc demo_world (map_end 0) = Some (Inl Invalid_iterator)"
    "\<exists>bg. map_begin 0 demo_world = Some bg \<and> iter_dec demo_world bg = Some (Inl Invalid_iterator)"
    "\<exists>a k v. iter_dec demo_world (map_end 0) = Some (Inr \<lparr>owner = Some 0, cur = Some a\<rparr>)
        \<and> (a, k, v) \<in> set (inorder demo_tree) \<and> (\<forall>k' \<in> set (keys demo_tree). \<not> k < k')"
    by blast+
  moreover from this(5) have "iter_dec demo_world (map_end 0) = Some (Inr \<lparr>owner = Some 0, cur = Some 2\<rparr>)"
    by (auto simp: demo_tree_def)
  moreover have "bst (<) (Lf :: (nat, nat) tree)" by simp
  from cursor_boundaries[OF swo_less_nat empty_map_wf this, of 0]
  have "iter_dec (map_ctor 0 (empty_world :: (nat, nat) world)) (map_end 0) = Some (Inl Invalid_iterator)"
    by simp
  ultimately show ?thesis by simp
qed

text \<open>
  C6 as stated (dereferencing the end cursor signals the invalid-operation error, for
  every way of dereferencing it) fails at \<^verbatim>\<open>operator->\<close>.
\<close>

theorem end_arrow_counterexample:
  "iter_arrow (map_end 0) \<noteq> Inl Invalid_iterator"
  by (simp add: iter_arrow_def map_end_def)


section \<open>The contract of erase\<close>

text \<open>
  C7. Let the map at \<open>this\<close> be well formed and hold the tree \<open>t\<close>, and let \<open>pos\<close> be a
  cursor that, if it is one of this map, is \<^verbatim>\<open>end()\<close> or stands at a node of \<open>t\<close> (a
  cursor of this map that was not invalidated). Then \<^verbatim>\<open>erase(pos)\<close> returns, and it
  throws \<^verbatim>\<open>invalid_iterator\<close> exactly when \<open>pos\<close> is not a cursor of this map or is
  \<^verbatim>\<open>end()\<close>. When it throws, the store is the store it found. When it does not, the
  entries before and after the one at \<open>pos\<close> stay, at their nodes, with their keys and
  values and in their order, the entry at \<open>pos\<close> is gone and its node freed, a full
  traversal visits exactly the entries that stay, and \<^verbatim>\<open>size()\<close> is one less.
\<close>

theorem erase_spec:
  assumes wf: "map_wf s this t"
    and valid: "owner pos = Some this \<Longrightarrow> cur pos = None \<or> (\<exists>a \<in> set (addrs t). cur pos = Some a)"
  shows "\<exists>r s'. erase this pos s = Some (r, s')
       \<and> ((r = Some Invalid_iterator) = (owner pos \<noteq> Some this \<or> cur pos = None))
       \<and> (r \<noteq> None \<longrightarrow> r = Some Invalid_iterator \<and> s' = s)
       \<and> (r = None \<longrightarrow>
            (\<exists>a k v xs ys t'. cur pos = Some a \<and> inorder t = xs @ (a, k, v) # ys
               \<and> iter_deref s pos = Some (Inr (k, v))
               \<and> map_wf s' this t' \<and> inorder t' = xs @ ys
               \<and> nodes s' a = None
               \<and> entries this s = Some (Inr (map snd xs @ (k, v) # map snd ys))
               \<and> entries this s' = Some (Inr (map snd xs @ map snd ys))
               \<and> map_size this s = Some (Suc (length xs + length ys))
               \<and> map_size this s' = Some (length xs + length ys)))"
proof (cases "owner pos \<noteq> Some this \<or> cur pos = None")
  case True
  then have "erase this pos s = Some (Some Invalid_iterator, s)" by (simp add: erase_def)
  with True show ?thesis by simp
next
  case False
  with valid obtain a where a: "a \<in> set (addrs t)" and pos: "pos = \<lparr>owner = Some this, cur = Some a\<rparr>"
    by (cases pos) auto
  from wf have rep: "tree_rep s this t" and cnt: "get_count s this = Some (length (inorder t))"
    by (simp_all add: map_wf_def)
  from a obtain k v where mem: "(a, k, v) \<in> set (inorder t)" by (auto simp: addrs_def)
  have d: "distinct (addrs t)" using rep by (simp add: tree_rep_def)
  from split_at_addr[OF d mem] obtain xs ys where
    io: "inorder t = xs @ (a, k, v) # ys" "filter (\<lambda>e. fst e \<noteq> a) (inorder t) = xs @ ys" by blast
  from erase_rep[OF wf a] obtain s' t' where
    e: "erase this \<lparr>owner = Some this, cur = Some a\<rparr> s = Some (None, s')"
       "map_wf s' this t'" "inorder t' = xs @ ys" "nodes s' a = None" unfolding io(2) by blast
  from e(2) have rep': "tree_rep s' this t'"
    and cnt': "get_count s' this = Some (length (inorder t'))" by (simp_all add: map_wf_def)
  have dr: "iter_deref s pos = Some (Inr (k, v))"
    unfolding pos using rep mem by (rule rep_iter_deref)
  have en: "entries this s = Some (Inr (map snd xs @ (k, v) # map snd ys))"
    "entries this s' = Some (Inr (map snd xs @ map snd ys))"
    using entries_rep[OF rep] entries_rep[OF rep'] by (simp_all add: items_def io(1) e(3))
  have sz: "map_size this s = Some (Suc (length xs + length ys))"
    "map_size this s' = Some (length xs + length ys)"
    using cnt cnt' by (simp_all add: map_size_def io(1) e(3))
  have "\<exists>a k v xs ys t'. cur pos = Some a \<and> inorder t = xs @ (a, k, v) # ys
               \<and> iter_deref s pos = Some (Inr (k, v))
               \<and> map_wf s' this t' \<and> inorder t' = xs @ ys
               \<and> nodes s' a = None
               \<and> entries this s = Some (Inr (map snd xs @ (k, v) # map snd ys))
               \<and> entries this s' = Some (Inr (map snd xs @ map snd ys))
               \<and> map_size this s = Some (Suc (length xs + length ys))
               \<and> map_size this s' = Some (length xs + length ys)"
    apply (rule exI[of _ a], rule exI[of _ k], rule exI[of _ v], rule exI[of _ xs],
           rule exI[of _ ys], rule exI[of _ t'])
    using io(1) dr e(2,3,4) en sz apply (simp add: pos)
    done
  with e(1) False show ?thesis unfolding pos by simp
qed

theorem erase_spec_witness:
  "erase 0 (map_end 0) demo_world = Some (Some Invalid_iterator, demo_world)
   \<and> erase 0 \<lparr>owner = Some 7, cur = Some 1\<rparr> demo_world = Some (Some Invalid_iterator, demo_world)
   \<and> erase 0 default_iterator demo_world = Some (Some Invalid_iterator, demo_world)
   \<and> (\<exists>s'. erase 0 \<lparr>owner = Some 0, cur = Some 1\<rparr> demo_world = Some (None, s')
         \<and> entries 0 demo_world = Some (Inr [(3, 30), (5, 50), (8, 80)])
         \<and> entries 0 s' = Some (Inr [(5, 50), (8, 80)])
         \<and> map_size 0 s' = Some 2)"
proof -
  have 1: "erase 0 (map_end 0) demo_world = Some (Some Invalid_iterator, demo_world)"
    using erase_spec[OF demo_map_wf, of "map_end 0"]
    by (auto simp: map_end_def)
  have 2: "erase 0 \<lparr>owner = Some 7, cur = Some 1\<rparr> demo_world = Some (Some Invalid_iterator, demo_world)"
    using erase_spec[OF demo_map_wf, of "\<lparr>owner = Some 7, cur = Some 1\<rparr>"]
    by auto
  have 3: "erase 0 default_iterator demo_world = Some (Some Invalid_iterator, demo_world)"
    using erase_spec[OF demo_map_wf, of default_iterator]
    by (auto simp: default_iterator_def)
  have v: "cur \<lparr>owner = Some (0::nat), cur = Some (1::nat)\<rparr> = None
           \<or> (\<exists>a \<in> set (addrs demo_tree). cur \<lparr>owner = Some (0::nat), cur = Some 1\<rparr> = Some a)"
    by (simp add: demo_tree_def)
  from erase_spec[OF demo_map_wf, of "\<lparr>owner = Some 0, cur = Some 1\<rparr>", OF v]
  have "\<exists>s' k v xs ys. erase 0 \<lparr>owner = Some 0, cur = Some 1\<rparr> demo_world = Some (None, s')
          \<and> inorder demo_tree = xs @ (1, k, v) # ys
          \<and> entries 0 demo_world = Some (Inr (map snd xs @ (k, v) # map snd ys))
          \<and> entries 0 s' = Some (Inr (map snd xs @ map snd ys))
          \<and> map_size 0 s' = Some (length xs + length ys)"
    by (elim exE conjE, case_tac r) (simp, force, simp)
  then obtain s' k v xs ys where
    r: "erase 0 \<lparr>owner = Some 0, cur = Some 1\<rparr> demo_world = Some (None, s')" and
    x: "inorder demo_tree = xs @ (1, k, v) # ys"
       "entries 0 demo_world = Some (Inr (map snd xs @ (k, v) # map snd ys))"
       "entries 0 s' = Some (Inr (map snd xs @ map snd ys))"
       "map_size 0 s' = Some (length xs + length ys)" by blast
  from x(1) have "xs = [] \<and> k = 3 \<and> v = 30 \<and> ys = [(0, 5, 50), (2, 8, 80)]"
    by (cases xs) (auto simp: demo_tree_def Cons_eq_append_conv)
  with x r have "\<exists>s'. erase 0 \<lparr>owner = Some 0, cur = Some 1\<rparr> demo_world = Some (None, s')
         \<and> entries 0 demo_world = Some (Inr [(3, 30), (5, 50), (8, 80)])
         \<and> entries 0 s' = Some (Inr [(5, 50), (8, 80)])
         \<and> map_size 0 s' = Some 2" by auto
  with 1 2 3 show ?thesis by blast
qed


section \<open>Cursors that were never bound to a map\<close>

text \<open>
  C8, as the code has it. On a default-constructed cursor \<^verbatim>\<open>operator*\<close>,
  \<^verbatim>\<open>operator++\<close> and \<^verbatim>\<open>operator--\<close> throw \<^verbatim>\<open>invalid_iterator\<close>, in every store.
  \<^verbatim>\<open>operator->\<close> is \<^verbatim>\<open>noexcept\<close> and has no test: it signals nothing and hands back
  the null pointer it holds.
\<close>

theorem default_iterator_operations:
  "iter_deref s default_iterator = Some (Inl Invalid_iterator)
   \<and> iter_inc s default_iterator = Some (Inl Invalid_iterator)
   \<and> iter_dec s default_iterator = Some (Inl Invalid_iterator)
   \<and> iter_arrow default_iterator = Inr None"
  by (simp add: iter_deref_def iter_inc_def iter_dec_def iter_arrow_def default_iterator_def)

text \<open>
  C8 as stated (every cursor operation, arrow-dereference included, signals the
  invalid-operation error) fails at the arrow.
\<close>

theorem default_iterator_arrow_counterexample:
  "iter_arrow default_iterator \<noteq> Inl Invalid_iterator"
  by (simp add: iter_arrow_def default_iterator_def)

section \<open>Index access on a constant map\<close>

text \<open>
  C10. On a well-formed map holding the search tree \<open>t\<close> with no key equivalent to \<open>x\<close>,
  the const overload of \<^verbatim>\<open>operator[]\<close> throws \<^verbatim>\<open>index_out_of_bound\<close>, exactly as
  \<^verbatim>\<open>at\<close> does, and not as the mutable overload, which inserts. It is a const member: it
  returns no store, and \<^verbatim>\<open>count(x)\<close> is still 0 after it.
\<close>

theorem index_const_missing_key:
  assumes "strict_weak_order cmp" and "map_wf s this t" and "bst cmp t"
    and "\<not> has_key cmp x t"
  shows "index_const cmp this x s = Some (Inl Index_out_of_bound)
         \<and> index_const cmp this x s = at cmp this x s
         \<and> count cmp this x s = Some 0"
proof -
  from assms(2) have rep: "tree_rep s this t" by (simp add: map_wf_def)
  from tfind_None_iff[OF assms(1,3), of x] assms(4) have "tfind cmp x t = None" by simp
  with at_rep[OF rep, of cmp x] count_rep[OF rep, of cmp x] show ?thesis
    by (simp add: index_const_def)
qed

theorem index_const_missing_key_witness:
  "index_const (<) 0 7 demo_world = Some (Inl Index_out_of_bound)
   \<and> index_const (<) 0 7 demo_world = at (<) 0 7 demo_world
   \<and> count (<) 0 7 demo_world = Some 0"
proof -
  have "\<not> has_key (<) (7::nat) demo_tree"
    by (auto simp: has_key_def demo_tree_def keys_def eq_key_def)
  from index_const_missing_key[OF swo_less_nat demo_map_wf demo_bst this] show ?thesis .
qed


end
